theory Spec2Isabelle
  imports Main
begin

section \<open>Python values and failures\<close>

text \<open>
  Python integers are unbounded: they are modelled as \<open>int\<close>, whose \<open>div\<close> and
  \<open>mod\<close> round towards minus infinity exactly as Python's \<open>//\<close> and \<open>%\<close> do.
  An exception leaving a function is the left injection of a sum; a loop that may run
  forever yields an \<open>option\<close>, \<open>None\<close> standing for "never returns".
  The three exceptions are the ones the modelled statements can raise: \<open>%\<close> and
  \<open>//\<close> by zero, \<open>int()\<close>, \<open>chr()\<close> and three-argument \<open>pow()\<close> on a bad
  argument, \<open>chr()\<close> on an integer outside the C int range.
\<close>

datatype error = ZeroDivisionError | ValueError | OverflowError

section \<open>6 Digital Signature.py\<close>

text \<open>
  \<^verbatim>\<open>
  def gcd(a, b):
      while b:
          a, b = b, a % b
      return a
  \<close>
\<close>

function gcd_py :: "int \<Rightarrow> int \<Rightarrow> int" where
  "gcd_py a b = (if b \<noteq> 0 then gcd_py b (a mod b) else a)"
  by pat_completeness auto
termination
proof (relation "measure (\<lambda>(a, b). nat \<bar>b\<bar>)")
  show "wf (measure (\<lambda>(a, b). nat \<bar>b\<bar>))" by simp
next
  fix a b :: int
  assume "b \<noteq> 0"
  then have "\<bar>a mod b\<bar> < \<bar>b\<bar>" by (rule abs_mod_less)
  then show "((b, a mod b), (a, b)) \<in> measure (\<lambda>(a, b). nat \<bar>b\<bar>)" by simp
qed

text \<open>
  \<^verbatim>\<open>
  def modinv(a, m):
      m0, x0, x1 = m, 0, 1
      while a > 1:
          q = a // m
          a, m = m, a % m
          x0, x1 = x1 - q * x0, x0
      return x1 + m0 if x1 < 0 else x1
  \<close>
  The loop body divides by \<open>m\<close>: with \<open>m = 0\<close> the statement \<open>q = a // m\<close> raises
  ZeroDivisionError. The loop state is \<open>(a, m, x0, x1)\<close>; only \<open>x1\<close> is read after
  the loop.
\<close>

function modinv_loop :: "int \<Rightarrow> int \<Rightarrow> int \<Rightarrow> int \<Rightarrow> error + int" where
  "modinv_loop a m x0 x1 =
     (if a > 1 then
        (if m = 0 then Inl ZeroDivisionError
         else modinv_loop m (a mod m) (x1 - (a div m) * x0) x0)
      else Inr x1)"
  by pat_completeness auto
termination
proof (relation "measure (\<lambda>(a, m, x0, x1). nat \<bar>m\<bar>)")
  show "wf (measure (\<lambda>(a, m, x0, x1). nat \<bar>m\<bar>))" by simp
next
  fix a m x0 x1 :: int
  assume "m \<noteq> 0"
  then have "\<bar>a mod m\<bar> < \<bar>m\<bar>" by (rule abs_mod_less)
  then show "((m, a mod m, x1 - a div m * x0, x0), (a, m, x0, x1))
      \<in> measure (\<lambda>(a, m, x0, x1). nat \<bar>m\<bar>)" by simp
qed

definition modinv :: "int \<Rightarrow> int \<Rightarrow> error + int" where
  "modinv a m =
     (case modinv_loop a m 0 1 of
        Inl err \<Rightarrow> Inl err
      | Inr x1 \<Rightarrow> Inr (if x1 < 0 then x1 + m else x1))"

text \<open>
  \<^verbatim>\<open>
  def generate_keypair(p, q):
      n = p * q
      phi = (p - 1) * (q - 1)
      e = 65537
      if gcd(e, phi) != 1:
          e = 3
          while gcd(e, phi) != 1:
              e += 2
      d = modinv(e, phi)
      return (e, n), (d, n)
  \<close>
  Nothing bounds the search for \<open>e\<close>, so it is a partial function: with \<open>phi = 0\<close>
  it never ends.
\<close>

partial_function (option) e_search :: "int \<Rightarrow> int \<Rightarrow> int option" where
  "e_search e phi = (if gcd_py e phi \<noteq> 1 then e_search (e + 2) phi else Some e)"

definition generate_keypair :: "int \<Rightarrow> int \<Rightarrow> (error + (int \<times> int) \<times> (int \<times> int)) option" where
  "generate_keypair p q =
     (let n = p * q;
          phi = (p - 1) * (q - 1)
      in case (if gcd_py 65537 phi \<noteq> 1 then e_search 3 phi else Some 65537) of
           None \<Rightarrow> None
         | Some e \<Rightarrow>
             Some (case modinv e phi of
                     Inl err \<Rightarrow> Inl err
                   | Inr d \<Rightarrow> Inr ((e, n), (d, n))))"

text \<open>
  The built-in \<open>pow(b, e, m)\<close> on integers: ValueError when \<open>m\<close> is 0; for a negative
  exponent the base is first inverted modulo \<open>m\<close> (ValueError when it has no inverse);
  the result has the sign of \<open>m\<close>, as \<open>%\<close> has.
\<close>

definition pow :: "int \<Rightarrow> int \<Rightarrow> int \<Rightarrow> error + int" where
  "pow b e m =
     (if m = 0 then Inl ValueError
      else if 0 \<le> e then Inr (b ^ nat e mod m)
      else (case find (\<lambda>y. (b * y) mod m = 1 mod m) [0..\<bar>m\<bar> - 1] of
              None \<Rightarrow> Inl ValueError
            | Some y \<Rightarrow> Inr (y ^ nat (- e) mod m)))"

text \<open>
  \<^verbatim>\<open>
  def sign(msg, private_key):
      d, n = private_key
      msg_hash = int.from_bytes(hashlib.sha256(msg.encode()).digest(), 'big') % n
      return pow(msg_hash, d, n)

  def verify(msg, signature, public_key):
      e, n = public_key
      msg_hash = int.from_bytes(hashlib.sha256(msg.encode()).digest(), 'big') % n
      hash_from_sig = pow(signature, e, n)
      return msg_hash == hash_from_sig
  \<close>
  The digest comes from the hashlib library, which is no part of the repository: the
  parameter \<open>H\<close> stands for
  \<open>int.from_bytes(hashlib.sha256(msg.encode()).digest(), 'big')\<close>, a natural number,
  on messages that can be encoded. The message type is left open, since the two
  functions only hand the message to the digest.
\<close>

definition sign :: "('m \<Rightarrow> nat) \<Rightarrow> 'm \<Rightarrow> int \<times> int \<Rightarrow> error + int" where
  "sign H msg private_key =
     (case private_key of (d, n) \<Rightarrow>
        if n = 0 then Inl ZeroDivisionError
        else pow (int (H msg) mod n) d n)"

definition verify :: "('m \<Rightarrow> nat) \<Rightarrow> 'm \<Rightarrow> int \<Rightarrow> int \<times> int \<Rightarrow> error + bool" where
  "verify H msg signature public_key =
     (case public_key of (e, n) \<Rightarrow>
        if n = 0 then Inl ZeroDivisionError
        else (case pow signature e n of
                Inl err \<Rightarrow> Inl err
              | Inr hash_from_sig \<Rightarrow> Inr (int (H msg) mod n = hash_from_sig)))"

section \<open>4 RSA.py\<close>

subsection \<open>The primality test\<close>

text \<open>
  \<^verbatim>\<open>
  def prime(num):
      if num == 1: return False
      elif num == 2: return True
      for i in range(2, num):
          if num % i == 0: return False
      return True
  \<close>
  The loop leaves at the first divisor found; \<open>range(2, num)\<close> is \<open>[2..num - 1]\<close>,
  empty when \<open>num \<le> 2\<close>.
\<close>

fun prime_loop :: "int \<Rightarrow> int list \<Rightarrow> bool" where
  "prime_loop num [] = True"
| "prime_loop num (i # is) = (if num mod i = 0 then False else prime_loop num is)"

definition prime :: "int \<Rightarrow> bool" where
  "prime num =
     (if num = 1 then False
      else if num = 2 then True
      else prime_loop num [2..num - 1])"

subsection \<open>Strings\<close>

text \<open>
  A message is a Python \<open>str\<close>, read only through \<open>ord\<close> and rebuilt only through
  \<open>chr\<close>: it is the list of its code points, \<open>nat list\<close>, so that \<open>ord\<close> is the
  inclusion of \<open>nat\<close> in \<open>int\<close>. \<open>chr(i)\<close> raises OverflowError outside the C int
  range and ValueError outside \<open>range(0x110000)\<close>.

  A ciphertext is the text \<open>' '.join(map(str, ...))\<close>: decimal numbers separated by
  blanks. It is a \<open>string\<close>, whose characters are the code points below 256. On
  these, \<open>str.split()\<close> splits at the characters \<open>is_space\<close> lists and never returns
  an empty token, and \<open>int()\<close>, which is only applied to such tokens (they hold no
  white space), reads an optional sign followed by decimal digits, which single
  underscores may separate.

  The interpreter bounds decimal conversions (\<open>sys.int_max_str_digits\<close>, 4300 unless
  reconfigured): \<open>str(i)\<close> raises ValueError when \<open>i\<close> has more digits, and
  \<open>int(s)\<close> raises ValueError when \<open>s\<close> holds more digit characters (leading zeros
  count, the sign and underscores do not). \<open>decimal\<close> is the text of an integer
  without that bound.
\<close>

definition int_max_str_digits :: nat where
  "int_max_str_digits = 4300"

definition chr :: "int \<Rightarrow> error + nat" where
  "chr i =
     (if i < - 2147483648 \<or> 2147483647 < i then Inl OverflowError
      else if 0 \<le> i \<and> i < 1114112 then Inr (nat i)
      else Inl ValueError)"

definition digit_char :: "nat \<Rightarrow> char" where
  "digit_char k = char_of (48 + k)"

function str_nat :: "nat \<Rightarrow> string" where
  "str_nat k = (if k < 10 then [digit_char k] else str_nat (k div 10) @ [digit_char (k mod 10)])"
  by pat_completeness auto
termination
  by (relation "measure id") auto

definition decimal :: "int \<Rightarrow> string" where
  "decimal i = (if i < 0 then CHR ''-'' # str_nat (nat (- i)) else str_nat (nat i))"

definition str :: "int \<Rightarrow> error + string" where
  "str i = (if 10 ^ int_max_str_digits \<le> \<bar>i\<bar> then Inl ValueError else Inr (decimal i))"

definition is_digit :: "char \<Rightarrow> bool" where
  "is_digit c = (48 \<le> (of_char c :: nat) \<and> (of_char c :: nat) \<le> 57)"

fun parse_digits :: "bool \<Rightarrow> nat \<Rightarrow> string \<Rightarrow> nat option" where
  "parse_digits after_digit acc [] = (if after_digit then Some acc else None)"
| "parse_digits after_digit acc (c # cs) =
     (if is_digit c then parse_digits True (10 * acc + (of_char c - 48)) cs
      else if c = CHR ''_'' \<and> after_digit then parse_digits False acc cs
      else None)"

definition parse_int_body :: "string \<Rightarrow> nat option" where
  "parse_int_body s =
     (if int_max_str_digits < length (filter is_digit s) then None
      else parse_digits False 0 s)"

definition int_py :: "string \<Rightarrow> error + int" where
  "int_py s =
     (case s of
        [] \<Rightarrow> Inl ValueError
      | c # rest \<Rightarrow>
          if c = CHR ''-'' then
            (case parse_int_body rest of None \<Rightarrow> Inl ValueError | Some v \<Rightarrow> Inr (- int v))
          else if c = CHR ''+'' then
            (case parse_int_body rest of None \<Rightarrow> Inl ValueError | Some v \<Rightarrow> Inr (int v))
          else
            (case parse_int_body s of None \<Rightarrow> Inl ValueError | Some v \<Rightarrow> Inr (int v)))"

definition is_space :: "char \<Rightarrow> bool" where
  "is_space c = ((of_char c :: nat) \<in> {9, 10, 11, 12, 13, 28, 29, 30, 31, 32, 133, 160})"

fun split_acc :: "string \<Rightarrow> string \<Rightarrow> string list" where
  "split_acc cur [] = (if cur = [] then [] else [cur])"
| "split_acc cur (c # cs) =
     (if is_space c then (if cur = [] then split_acc [] cs else cur # split_acc [] cs)
      else split_acc (cur @ [c]) cs)"

definition str_split :: "string \<Rightarrow> string list" where
  "str_split s = split_acc [] s"

fun str_join :: "string \<Rightarrow> string list \<Rightarrow> string" where
  "str_join sep [] = []"
| "str_join sep [x] = x"
| "str_join sep (x # y # ys) = x @ sep @ str_join sep (y # ys)"

text \<open>A list comprehension stops at the first element whose expression raises.\<close>

fun map_err :: "('a \<Rightarrow> error + 'b) \<Rightarrow> 'a list \<Rightarrow> error + 'b list" where
  "map_err f [] = Inr []"
| "map_err f (x # xs) =
     (case f x of
        Inl err \<Rightarrow> Inl err
      | Inr y \<Rightarrow> (case map_err f xs of Inl err \<Rightarrow> Inl err | Inr ys \<Rightarrow> Inr (y # ys)))"

subsection \<open>Encryption and decryption\<close>

text \<open>
  \<^verbatim>\<open>
  def encrypt(msg, n, e):
      msg = [ord(i) ** e % n for i in list(msg)]
      return ' '.join(map(str, msg))

  def decrypt(msg, n, d):
      msg = [chr((int(i) ** d) % n) for i in msg.split()]
      return ''.join(msg)
  \<close>
  The exponents are natural numbers: the script draws \<open>e\<close> from \<open>range(2, n)\<close> and
  counts \<open>d\<close> up from 1 (with a negative exponent \<open>**\<close> would produce a float).
\<close>

definition encrypt :: "nat list \<Rightarrow> int \<Rightarrow> nat \<Rightarrow> error + string" where
  "encrypt msg n e =
     (case map_err (\<lambda>i. if n = 0 then Inl ZeroDivisionError else Inr (int i ^ e mod n)) msg of
        Inl err \<Rightarrow> Inl err
      | Inr cs \<Rightarrow>
          (case map_err str cs of
             Inl err \<Rightarrow> Inl err
           | Inr ts \<Rightarrow> Inr (str_join '' '' ts)))"

definition decrypt :: "string \<Rightarrow> int \<Rightarrow> nat \<Rightarrow> error + nat list" where
  "decrypt msg n d =
     map_err (\<lambda>i. case int_py i of
                     Inl err \<Rightarrow> Inl err
                   | Inr v \<Rightarrow> if n = 0 then Inl ZeroDivisionError else chr (v ^ d mod n))
       (str_split msg)"

subsection \<open>Key generation\<close>

text \<open>
  \<^verbatim>\<open>
  prime_list = list(i for i in range(127, 500+1) if prime(i))
  p = random.choice(prime_list)
  q = random.choice(prime_list)
  n = p * q
  phi_n = (p - 1) * (q - 1)
  e = random.choice([i for i in range(2, n) if math.gcd(i, phi_n) == 1])
  d = 1
  while (e * d) % phi_n != 1:
      d += 1
  public_key = (n, e)
  private_key = (n, d)
  \<close>
  The three random choices are the arguments \<open>p\<close>, \<open>q\<close> and \<open>e\<close> of
  \<open>key_generation\<close>; the lists they are drawn from are \<open>prime_list\<close> and
  \<open>e_candidates\<close>. \<open>math.gcd\<close> is the non-negative greatest common divisor. The
  search for \<open>d\<close> has no bound.
\<close>

definition prime_list :: "int list" where
  "prime_list = filter prime [127..500]"

definition e_candidates :: "int \<Rightarrow> int \<Rightarrow> nat list" where
  "e_candidates n phi_n = filter (\<lambda>i. gcd (int i) phi_n = 1) [2..<nat n]"

partial_function (option) d_search :: "nat \<Rightarrow> int \<Rightarrow> nat \<Rightarrow> nat option" where
  "d_search e phi_n d =
     (if (int e * int d) mod phi_n \<noteq> 1 then d_search e phi_n (d + 1) else Some d)"

definition key_generation :: "int \<Rightarrow> int \<Rightarrow> nat \<Rightarrow> (error + (int \<times> nat) \<times> (int \<times> nat)) option" where
  "key_generation p q e =
     (let n = p * q;
          phi_n = (p - 1) * (q - 1)
      in if phi_n = 0 then Some (Inl ZeroDivisionError)
         else (case d_search e phi_n 1 of
                 None \<Rightarrow> None
               | Some d \<Rightarrow> Some (Inr ((n, e), (n, d)))))"

section \<open>3 Diffie-Hellman.py: the primality test\<close>

text \<open>
  \<^verbatim>\<open>
  def is_prime(num):
      if num <= 1: return False
      for i in range(2, int(num**0.5) + 1):
          if num % i == 0: return False
      return True
  \<close>
  \<open>num**0.5\<close> first converts \<open>num\<close> to a float, which raises OverflowError from
  \<open>2 ^ 1024 - 2 ^ 970\<close> on (the least integer that rounds beyond the largest
  double). Below that, the result \<open>int(num**0.5)\<close> of the floating-point computation
  is the parameter \<open>isqrt\<close> of the model.
\<close>

definition float_overflow :: int where
  "float_overflow = 2 ^ 1024 - 2 ^ 970"

definition is_prime :: "(int \<Rightarrow> int) \<Rightarrow> int \<Rightarrow> error + bool" where
  "is_prime isqrt num =
     (if num \<le> 1 then Inr False
      else if float_overflow \<le> num then Inl OverflowError
      else Inr (prime_loop num [2..isqrt num]))"

section \<open>Notions the properties are stated with\<close>

text \<open>A prime number, as a property of an integer.\<close>

definition prime_number :: "int \<Rightarrow> bool" where
  "prime_number p = (1 < p \<and> (\<forall>m. 1 < m \<and> m < p \<longrightarrow> \<not> m dvd p))"

text \<open>Two byte strings of equal length that differ at exactly one position.\<close>

definition altered_one_byte :: "string \<Rightarrow> string \<Rightarrow> bool" where
  "altered_one_byte m m2 =
     (length m = length m2 \<and> length (filter (\<lambda>(a, b). a \<noteq> b) (zip m m2)) = 1)"

text \<open>
  \<open>x ^ k mod n\<close> under a name of its own, so that it can be evaluated by repeated
  squaring instead of computing the power first.
\<close>

definition modexp :: "int \<Rightarrow> nat \<Rightarrow> int \<Rightarrow> int" where
  "modexp x k n = x ^ k mod n"

declare gcd_py.simps [simp del] modinv_loop.simps [simp del] str_nat.simps [simp del]

section \<open>Number theory: Fermat's little theorem and the RSA identity\<close>

lemma prime_number_coprime:
  assumes "prime_number p" "0 < k" "k < p"
  shows "coprime k p"
proof -
  let ?g = "gcd k p"
  have g: "?g dvd k" "?g dvd p" by simp_all
  have "0 < ?g" using assms by (simp add: gcd_pos_int)
  moreover have "?g \<le> k" using g(1) assms(2) by (simp add: zdvd_imp_le)
  moreover have "\<not> (1 < ?g \<and> ?g < p)"
    using assms(1) g(2) unfolding prime_number_def by blast
  ultimately have "?g = 1" using assms(3) by linarith
  then show ?thesis by (simp add: coprime_iff_gcd_eq_1)
qed

lemma prime_dvd_choose:
  assumes "prime_number (int p)" "0 < k" "k < p"
  shows "p dvd (p choose k)"
proof -
  obtain p' where p: "p = Suc p'" using assms by (cases p) auto
  obtain k' where k: "k = Suc k'" using assms by (cases k) auto
  have "k * (p choose k) = p * (p' choose k')"
    unfolding p k by (rule Suc_times_binomial)
  then have "p dvd k * (p choose k)" by simp
  moreover have "coprime (int k) (int p)" using assms by (intro prime_number_coprime) auto
  then have "coprime p k" by (simp add: coprime_commute)
  ultimately show ?thesis by (simp add: coprime_dvd_mult_right_iff)
qed

lemma fermat_step:
  assumes "prime_number (int p)"
  shows "(a + 1) ^ p mod p = (a ^ p + 1) mod (p::nat)"
proof -
  have p1: "1 < p" using assms by (simp add: prime_number_def)
  then obtain p' where p: "p = Suc p'" by (cases p) auto
  have "(a + 1) ^ p = (\<Sum>k\<le>p. (p choose k) * a ^ k * 1 ^ (p - k))"
    using binomial[of a 1 p] by simp
  also have "\<dots> = (\<Sum>k\<le>p. (p choose k) * a ^ k)" by simp
  also have "\<dots> = (\<Sum>k\<le>p'. (p choose k) * a ^ k) + a ^ p"
    unfolding p by simp
  also have "(\<Sum>k\<le>p'. (p choose k) * a ^ k) = 1 + (\<Sum>k = 1..p'. (p choose k) * a ^ k)"
    by (simp add: atMost_atLeast0 sum.atLeast_Suc_atMost)
  finally have eq: "(a + 1) ^ p = (a ^ p + 1) + (\<Sum>k = 1..p'. (p choose k) * a ^ k)" by simp
  have "p dvd (\<Sum>k = 1..p'. (p choose k) * a ^ k)"
  proof (rule dvd_sum)
    fix k assume "k \<in> {1..p'}"
    then have "0 < k" "k < p" using p by auto
    then have "p dvd (p choose k)" using assms by (rule prime_dvd_choose[rotated 1])
    then show "p dvd (p choose k) * a ^ k" by simp
  qed
  then obtain c where "(\<Sum>k = 1..p'. (p choose k) * a ^ k) = p * c" by (auto simp: dvd_def)
  then show ?thesis unfolding eq by simp
qed

lemma fermat_nat:
  assumes "prime_number (int p)"
  shows "a ^ p mod p = a mod (p::nat)"
proof (induction a)
  case 0
  have "0 < p" using assms by (simp add: prime_number_def)
  then show ?case by (simp add: zero_power)
next
  case (Suc a)
  have "Suc a ^ p mod p = Suc (a ^ p) mod p" using fermat_step[OF assms, of a] by simp
  also have "\<dots> = Suc (a ^ p mod p) mod p" by (simp only: mod_Suc_eq)
  also have "\<dots> = Suc (a mod p) mod p" using Suc by simp
  also have "\<dots> = Suc a mod p" by (simp only: mod_Suc_eq)
  finally show ?case .
qed

lemma fermat_iter:
  assumes "prime_number (int p)"
  shows "a ^ (1 + j * (p - 1)) mod p = a mod (p::nat)"
proof (induction j)
  case 0
  show ?case by simp
next
  case (Suc j)
  have p: "0 < p" using assms by (simp add: prime_number_def)
  have "a ^ (1 + Suc j * (p - 1)) = a ^ (1 + j * (p - 1)) * a ^ (p - 1)"
    by (simp add: power_add)
  then have "a ^ (1 + Suc j * (p - 1)) mod p = a ^ (1 + j * (p - 1)) * a ^ (p - 1) mod p"
    by (simp only:)
  also have "\<dots> = (a ^ (1 + j * (p - 1)) mod p) * a ^ (p - 1) mod p"
    by (simp only: mod_mult_left_eq)
  also have "\<dots> = (a mod p) * a ^ (p - 1) mod p" using Suc by simp
  also have "\<dots> = a * a ^ (p - 1) mod p" by (simp add: mod_mult_left_eq)
  also have "a * a ^ (p - 1) = a ^ p" using p by (cases p) simp_all
  also have "a ^ p mod p = a mod p" by (rule fermat_nat[OF assms])
  finally show ?case .
qed

lemma fermat_iter_int:
  assumes "prime_number p"
  shows "x ^ (1 + j * nat (p - 1)) mod p = x mod p"
proof -
  have p: "0 < p" using assms by (simp add: prime_number_def)
  define a where "a = nat (x mod p)"
  define n where "n = nat p"
  have pn: "p = int n" using p by (simp add: n_def)
  have ax: "x mod p = int a" using p by (simp add: a_def)
  have pr: "prime_number (int n)" using assms pn by simp
  have n1: "nat (p - 1) = n - 1" by (simp add: n_def)
  have "x ^ (1 + j * nat (p - 1)) mod p = (x mod p) ^ (1 + j * nat (p - 1)) mod p"
    by (simp only: power_mod)
  also have "\<dots> = int a ^ (1 + j * (n - 1)) mod int n"
    by (simp only: ax n1 pn[symmetric])
  also have "\<dots> = int (a ^ (1 + j * (n - 1)) mod n)"
    by (simp add: zmod_int)
  also have "\<dots> = int (a mod n)" by (simp only: fermat_iter[OF pr])
  also have "\<dots> = int a mod int n" by (simp add: zmod_int)
  also have "\<dots> = (x mod p) mod p" by (simp only: ax pn[symmetric])
  finally show ?thesis by simp
qed

lemma prime_number_distinct_coprime:
  assumes "prime_number p" "prime_number q" "p \<noteq> q"
  shows "coprime p q"
proof (cases "p < q")
  case True
  then show ?thesis using assms prime_number_coprime[of q p] by (simp add: prime_number_def)
next
  case False
  then have "q < p" using assms(3) by simp
  then show ?thesis using assms prime_number_coprime[of p q]
    by (simp add: prime_number_def coprime_commute)
qed

lemma rsa_core:
  assumes p: "prime_number p" and q: "prime_number q" and pq: "p \<noteq> q"
    and k: "int k mod ((p - 1) * (q - 1)) = 1"
  shows "x ^ k mod (p * q) = x mod (p * q)"
proof -
  let ?phi = "(p - 1) * (q - 1)"
  have p1: "1 < p" and q1: "1 < q" using p q by (simp_all add: prime_number_def)
  have phi: "0 < ?phi" using p1 q1 by simp
  define j where "j = nat (int k div ?phi)"
  have "int k = ?phi * (int k div ?phi) + 1" using k by (metis mult_div_mod_eq)
  moreover have "0 \<le> int k div ?phi" using phi by (simp add: pos_imp_zdiv_nonneg_iff)
  ultimately have "int k = 1 + int j * ?phi" by (simp add: j_def mult.commute)
  also have "\<dots> = int (1 + j * (nat (p - 1) * nat (q - 1)))"
    using p1 q1 by (simp add: nat_mult_distrib)
  finally have kk: "k = 1 + j * (nat (p - 1) * nat (q - 1))" by (simp only: of_nat_eq_iff)
  have "k = 1 + (j * nat (q - 1)) * nat (p - 1)" using kk by (simp add: mult.commute mult.left_commute)
  then have "x ^ k mod p = x mod p" using fermat_iter_int[OF p] by simp
  then have dp: "p dvd x ^ k - x" by (simp add: mod_eq_dvd_iff)
  have "k = 1 + (j * nat (p - 1)) * nat (q - 1)" using kk by (simp add: mult.commute mult.left_commute)
  then have "x ^ k mod q = x mod q" using fermat_iter_int[OF q] by simp
  then have dq: "q dvd x ^ k - x" by (simp add: mod_eq_dvd_iff)
  have "p * q dvd x ^ k - x"
    using prime_number_distinct_coprime[OF p q pq] dp dq by (simp add: divides_mult)
  then show ?thesis by (simp add: mod_eq_dvd_iff)
qed

section \<open>The Euclidean loops\<close>

lemma gcd_euclid_step: "gcd (b::int) (a mod b) = gcd a b"
  by (metis gcd_red_int)

lemma gcd_py_abs: "\<bar>gcd_py a b\<bar> = gcd a b"
proof (induction a b rule: gcd_py.induct)
  case (1 a b)
  show ?case
  proof (cases "b = 0")
    case True
    then show ?thesis by (subst gcd_py.simps) simp
  next
    case False
    then have "\<bar>gcd_py a b\<bar> = gcd b (a mod b)" using 1 by (subst gcd_py.simps) simp
    then show ?thesis by (simp only: gcd_euclid_step)
  qed
qed

lemma gcd_py_nonneg: "0 \<le> a \<Longrightarrow> 0 \<le> b \<Longrightarrow> 0 \<le> gcd_py a b"
proof (induction a b rule: gcd_py.induct)
  case (1 a b)
  show ?case
  proof (cases "b = 0")
    case True
    then show ?thesis using 1 by (subst gcd_py.simps) simp
  next
    case False
    then have "0 \<le> a mod b" using 1 by simp
    then show ?thesis using 1 False by (subst gcd_py.simps) simp
  qed
qed

lemma gcd_py_eq: "0 \<le> a \<Longrightarrow> 0 \<le> b \<Longrightarrow> gcd_py a b = gcd a b"
  using gcd_py_abs[of a b] gcd_py_nonneg[of a b] by simp

lemma modinv_loop_fails:
  "1 < a \<Longrightarrow> 0 \<le> m \<Longrightarrow> gcd a m \<noteq> 1 \<Longrightarrow> modinv_loop a m x0 x1 = Inl ZeroDivisionError"
proof (induction a m x0 x1 rule: modinv_loop.induct)
  case (1 a m x0 x1)
  show ?case
  proof (cases "m = 0")
    case True
    then show ?thesis using 1 by (subst modinv_loop.simps) simp
  next
    case False
    then have m: "0 < m" using 1 by simp
    have "m \<noteq> 1" using 1 by auto
    then have m1: "1 < m" using m by simp
    have g: "gcd m (a mod m) \<noteq> 1"
      using 1(4) by (simp add: gcd_euclid_step)
    have "0 \<le> a mod m" using m by simp
    then have "modinv_loop m (a mod m) (x1 - (a div m) * x0) x0 = Inl ZeroDivisionError"
      using 1 False m1 g by simp
    then show ?thesis using 1 False by (subst modinv_loop.simps) simp
  qed
qed

lemma modinv_loop_inverse:
  assumes "1 \<le> a" "0 \<le> m" "gcd a m = 1"
    and "m0 dvd x1 * a0 - a" "m0 dvd x0 * a0 - m"
    and "x0 * x1 \<le> 0" "\<bar>x0\<bar> * a + \<bar>x1\<bar> * m = m0" "\<bar>x1\<bar> < m0"
  shows "\<exists>r. modinv_loop a m x0 x1 = Inr r \<and> m0 dvd r * a0 - 1 \<and> \<bar>r\<bar> < m0"
  using assms
proof (induction a m x0 x1 rule: modinv_loop.induct)
  case (1 a m x0 x1)
  show ?case
  proof (cases "1 < a")
    case False
    then have "a = 1" using 1 by simp
    then show ?thesis using 1 by (subst modinv_loop.simps) simp
  next
    case True
    have m0: "m \<noteq> 0" using True 1 by auto
    then have m: "0 < m" using 1 by simp
    let ?q = "a div m"
    have q: "0 \<le> ?q" using m True by (simp add: pos_imp_zdiv_nonneg_iff)
    have am: "a mod m = a - ?q * m" by (simp add: minus_div_mult_eq_mod)
    have g: "gcd m (a mod m) = 1"
      using 1(4) by (simp add: gcd_euclid_step)
    have d1: "m0 dvd (x1 - ?q * x0) * a0 - a mod m"
    proof -
      have "(x1 - ?q * x0) * a0 - a mod m = (x1 * a0 - a) - ?q * (x0 * a0 - m)"
        unfolding am by (simp add: algebra_simps)
      then show ?thesis using 1(5,6) by (simp add: dvd_diff)
    qed
    have s: "(x1 - ?q * x0) * x0 \<le> 0"
    proof -
      have "(x1 - ?q * x0) * x0 = x0 * x1 - ?q * (x0 * x0)" by (simp add: algebra_simps)
      moreover have "0 \<le> ?q * (x0 * x0)" using q by simp
      ultimately show ?thesis using 1(7) by simp
    qed
    have ab: "\<bar>x1 - ?q * x0\<bar> = \<bar>x1\<bar> + ?q * \<bar>x0\<bar>"
    proof (cases "0 \<le> x0")
      case True
      show ?thesis
      proof (cases "x0 = 0")
        case True then show ?thesis by simp
      next
        case False
        then have "0 < x0" using \<open>0 \<le> x0\<close> by simp
        then have "x1 \<le> 0" using 1(7) by (simp add: mult_le_0_iff)
        moreover have "0 \<le> ?q * x0" using q \<open>0 \<le> x0\<close> by simp
        ultimately show ?thesis using \<open>0 \<le> x0\<close> by simp
      qed
    next
      case False
      then have x0: "x0 < 0" by simp
      then have "0 \<le> x1" using 1(7) by (simp add: mult_le_0_iff)
      moreover have "?q * x0 \<le> 0" using q x0 by (simp add: mult_le_0_iff)
      ultimately show ?thesis using x0 by simp
    qed
    have e: "\<bar>x1 - ?q * x0\<bar> * m + \<bar>x0\<bar> * (a mod m) = m0"
      unfolding ab am using 1(8) by (simp add: algebra_simps)
    have b: "\<bar>x0\<bar> < m0"
    proof -
      have "0 \<le> \<bar>x1\<bar> * m" using m by simp
      then have "\<bar>x0\<bar> * a \<le> m0" using 1(8) by linarith
      moreover have "\<bar>x0\<bar> * 2 \<le> \<bar>x0\<bar> * a" using True by (intro mult_left_mono) auto
      moreover have "0 < m0" using 1(9) by linarith
      ultimately show ?thesis by linarith
    qed
    have nn: "0 \<le> a mod m" using m by simp
    have "\<exists>r. modinv_loop m (a mod m) (x1 - ?q * x0) x0 = Inr r \<and> m0 dvd r * a0 - 1 \<and> \<bar>r\<bar> < m0"
      using True m0 m nn g d1 1(6) s e b by (intro 1(1)) (simp_all add: mult.commute)
    then show ?thesis using True m0 by (subst modinv_loop.simps) simp
  qed
qed

lemma modinv_inverse:
  assumes "1 \<le> a" "1 < m" "gcd a m = 1"
  shows "\<exists>d. modinv a m = Inr d \<and> 0 < d \<and> d < m \<and> (a * d) mod m = 1"
proof -
  have "\<exists>r. modinv_loop a m 0 1 = Inr r \<and> m dvd r * a - 1 \<and> \<bar>r\<bar> < m"
    using assms by (intro modinv_loop_inverse) simp_all
  then obtain r where r: "modinv_loop a m 0 1 = Inr r" "m dvd r * a - 1" "\<bar>r\<bar> < m" by blast
  define d where "d = (if r < 0 then r + m else r)"
  have md: "modinv a m = Inr d" by (simp add: modinv_def r(1) d_def)
  have dv: "m dvd d * a - 1"
  proof (cases "r < 0")
    case True
    have "d * a - 1 = (r * a - 1) + m * a" using True by (simp add: d_def algebra_simps)
    moreover have "m dvd (r * a - 1) + m * a" by (rule dvd_add[OF r(2) dvd_triv_left])
    ultimately show ?thesis by (simp only:)
  next
    case False
    then show ?thesis using r(2) by (simp add: d_def)
  qed
  have rng: "0 \<le> d" "d < m" using r(3) by (auto simp: d_def)
  have "(d * a) mod m = 1 mod m" using dv by (simp add: mod_eq_dvd_iff)
  then have one: "(a * d) mod m = 1" using assms(2) by (simp add: mult.commute)
  have "d \<noteq> 0" using one assms(2) by auto
  then show ?thesis using md rng one by auto
qed

section \<open>The choice of the public exponent\<close>

lemma e_search_finds:
  assumes "e \<le> t" "even (t - e)" "gcd_py t phi = 1"
  shows "\<exists>r. e_search e phi = Some r \<and> e \<le> r \<and> r \<le> t \<and> even (r - e) \<and> gcd_py r phi = 1
            \<and> (\<forall>c. e \<le> c \<and> c < r \<and> even (c - e) \<longrightarrow> gcd_py c phi \<noteq> 1)"
  using assms
proof (induction "nat (t - e)" arbitrary: e rule: less_induct)
  case less
  show ?case
  proof (cases "gcd_py e phi = 1")
    case True
    then have "e_search e phi = Some e" by (subst e_search.simps) simp
    then show ?thesis using True less.prems by auto
  next
    case False
    then have "e \<noteq> t" using less.prems by auto
    then have lt: "e < t" using less.prems by simp
    have "t - e \<noteq> 1" using less.prems(2) by (metis odd_one)
    then have le: "e + 2 \<le> t" using lt by simp
    have ev: "even (t - (e + 2))" using less.prems(2) by simp
    have "nat (t - (e + 2)) < nat (t - e)" using lt by simp
    from less.hyps[OF this le ev less.prems(3)]
    obtain r where r: "e_search (e + 2) phi = Some r" "e + 2 \<le> r" "r \<le> t" "even (r - (e + 2))"
      "gcd_py r phi = 1" "\<forall>c. e + 2 \<le> c \<and> c < r \<and> even (c - (e + 2)) \<longrightarrow> gcd_py c phi \<noteq> 1"
      by blast
    have s: "e_search e phi = Some r" using False r(1) by (subst e_search.simps) simp
    have mn: "gcd_py c phi \<noteq> 1" if c: "e \<le> c" "c < r" "even (c - e)" for c
    proof (cases "c = e")
      case True
      then show ?thesis using False by simp
    next
      case False
      have "c - e \<noteq> 1" using c(3) by (metis odd_one)
      moreover have "e < c" using False c(1) by simp
      ultimately have "c - e \<noteq> 1" "e < c" by simp_all
      then have "e + 2 \<le> c" by simp
      moreover have "even (c - (e + 2))" using c(3) by simp
      ultimately show ?thesis using r(6) c(2) by blast
    qed
    have "even (r - e)" using r(4) by simp
    then show ?thesis using s r(2,3,5) mn by auto
  qed
qed

lemma coprime_minus_two:
  assumes "odd (phi::int)"
  shows "gcd (phi - 2) phi = 1"
proof -
  let ?g = "gcd (phi - 2) phi"
  have e: "phi - (phi - 2) = 2" by simp
  have "?g dvd phi - (phi - 2)" by (rule dvd_diff) (rule gcd_dvd2, rule gcd_dvd1)
  then have g2: "?g dvd 2" unfolding e .
  then have "?g \<le> 2" by (simp add: zdvd_imp_le)
  moreover have "?g \<noteq> 2"
  proof
    assume "?g = 2"
    then have "2 dvd phi" by (metis gcd_dvd2)
    then show False using assms by simp
  qed
  moreover have "?g \<noteq> 0" using assms by auto
  moreover have "0 \<le> ?g" by simp
  ultimately show ?thesis by linarith
qed

lemma gcd_65537_small: "gcd (65537::int) 1 = 1" "gcd (65537::int) 2 = 1" "gcd (65537::int) 3 = 1"
  by (simp_all add: gcd_red_int[of 65537 2] gcd_red_int[of 65537 3])

lemma e_selection:
  assumes "0 < phi"
  shows "\<exists>e. (if gcd_py 65537 phi \<noteq> 1 then e_search 3 phi else Some 65537) = Some e
           \<and> 1 < e \<and> gcd e phi = 1
           \<and> (gcd 65537 phi = 1 \<longrightarrow> e = 65537)
           \<and> (gcd 65537 phi \<noteq> 1 \<longrightarrow> odd e \<and> 3 \<le> e \<and> e < phi
                 \<and> (\<forall>c. 3 \<le> c \<and> c < e \<and> odd c \<longrightarrow> gcd c phi \<noteq> 1))"
proof (cases "gcd (65537::int) phi = 1")
  case True
  then have "gcd_py 65537 phi = 1" using assms by (simp add: gcd_py_eq)
  then show ?thesis using True by simp
next
  case False
  then have gp: "gcd_py 65537 phi \<noteq> 1" using assms by (simp add: gcd_py_eq)
  have "phi \<noteq> 1" "phi \<noteq> 2" "phi \<noteq> 3" using False gcd_65537_small by auto
  then have phi4: "4 \<le> phi" using assms by simp
  define t where "t = (if even phi then phi - 1 else phi - 2)"
  have t3: "3 \<le> t"
  proof (cases "even phi")
    case True then show ?thesis using phi4 by (simp add: t_def)
  next
    case False
    then have "phi \<noteq> 4" by auto
    then show ?thesis using phi4 False by (simp add: t_def)
  qed
  have todd: "odd t" by (simp add: t_def)
  have tphi: "t < phi" by (simp add: t_def)
  have "gcd t phi = 1"
  proof (cases "even phi")
    case True
    then show ?thesis using coprime_diff_one_left[of phi] by (simp add: t_def coprime_iff_gcd_eq_1)
  next
    case False
    then show ?thesis using coprime_minus_two by (simp add: t_def)
  qed
  then have gt: "gcd_py t phi = 1" using t3 assms by (simp add: gcd_py_eq)
  have "even (t - 3)" using todd by simp
  from e_search_finds[OF t3 this gt]
  obtain r where r: "e_search 3 phi = Some r" "3 \<le> r" "r \<le> t" "even (r - 3)" "gcd_py r phi = 1"
    "\<forall>c. 3 \<le> c \<and> c < r \<and> even (c - 3) \<longrightarrow> gcd_py c phi \<noteq> 1" by blast
  have gr: "gcd r phi = 1" using r(2,5) assms by (simp add: gcd_py_eq)
  have mn: "gcd c phi \<noteq> 1" if "3 \<le> c" "c < r" "odd c" for c
  proof -
    have "even (c - 3)" using that(3) by simp
    then have "gcd_py c phi \<noteq> 1" using r(6) that by blast
    then show ?thesis using that(1) assms by (simp add: gcd_py_eq)
  qed
  have "odd r" using r(4) by simp
  then have c5: "odd r \<and> 3 \<le> r \<and> r < phi \<and> (\<forall>c. 3 \<le> c \<and> c < r \<and> odd c \<longrightarrow> gcd c phi \<noteq> 1)"
    using r(2,3) tphi mn by auto
  have c1: "(if gcd_py 65537 phi \<noteq> 1 then e_search 3 phi else Some 65537) = Some r"
    using gp r(1) by simp
  have c2: "1 < r" using r(2) by simp
  show ?thesis using c1 c2 gr False c5 by simp
qed

lemma generate_keypair_result:
  assumes "1 < (p - 1) * (q - 1)"
  shows "\<exists>e d. generate_keypair p q = Some (Inr ((e, p * q), (d, p * q)))
           \<and> 1 < e \<and> gcd e ((p - 1) * (q - 1)) = 1
           \<and> 0 < d \<and> d < (p - 1) * (q - 1) \<and> (e * d) mod ((p - 1) * (q - 1)) = 1
           \<and> (gcd 65537 ((p - 1) * (q - 1)) = 1 \<longrightarrow> e = 65537)
           \<and> (gcd 65537 ((p - 1) * (q - 1)) \<noteq> 1 \<longrightarrow> odd e \<and> 3 \<le> e \<and> e < (p - 1) * (q - 1)
                 \<and> (\<forall>c. 3 \<le> c \<and> c < e \<and> odd c \<longrightarrow> gcd c ((p - 1) * (q - 1)) \<noteq> 1))"
proof -
  let ?phi = "(p - 1) * (q - 1)"
  have "0 < ?phi" using assms by simp
  from e_selection[OF this]
  obtain e where e: "(if gcd_py 65537 ?phi \<noteq> 1 then e_search 3 ?phi else Some 65537) = Some e"
    "1 < e" "gcd e ?phi = 1" "gcd 65537 ?phi = 1 \<longrightarrow> e = 65537"
    "gcd 65537 ?phi \<noteq> 1 \<longrightarrow> odd e \<and> 3 \<le> e \<and> e < ?phi
        \<and> (\<forall>c. 3 \<le> c \<and> c < e \<and> odd c \<longrightarrow> gcd c ?phi \<noteq> 1)"
    by (elim exE conjE) (rule that)
  have "1 \<le> e" using e(2) by simp
  from modinv_inverse[OF this assms e(3)]
  obtain d where d: "modinv e ?phi = Inr d" "0 < d" "d < ?phi" "(e * d) mod ?phi = 1" by blast
  have kp: "generate_keypair p q = Some (Inr ((e, p * q), (d, p * q)))"
    unfolding generate_keypair_def Let_def e(1) by (simp add: d(1))
  show ?thesis
  proof (intro exI conjI)
    show "generate_keypair p q = Some (Inr ((e, p * q), (d, p * q)))" by (rule kp)
  qed (fact e d)+
qed

section \<open>Decimal text and modular powers\<close>

lemma modexp_0: "modexp x 0 n = 1 mod n"
  by (simp add: modexp_def)

lemma modexp_1: "modexp x 1 n = x mod n"
  by (simp add: modexp_def)

lemma modexp_Suc_0: "modexp x (Suc 0) n = x mod n"
  by (simp add: modexp_def)

lemma modexp_One: "modexp x (numeral Num.One) n = x mod n"
  by (simp add: modexp_def)

lemma modexp_Bit0: "modexp x (numeral (Num.Bit0 k)) n = modexp (x * x mod n) (numeral k) n"
proof -
  have "x ^ numeral (Num.Bit0 k) = (x * x) ^ numeral k"
    by (metis mult_2 numeral_Bit0 power2_eq_square power_mult)
  then show ?thesis unfolding modexp_def by (simp only: power_mod)
qed

lemma modexp_Bit1: "modexp x (numeral (Num.Bit1 k)) n = x * modexp (x * x mod n) (numeral k) n mod n"
proof -
  have "x ^ numeral (Num.Bit1 k) = x * (x * x) ^ numeral k"
    by (metis mult_2 numeral_Bit0 numeral_Bit1 power2_eq_square power_mult power_add power_one_right add.commute mult.commute)
  then have "x ^ numeral (Num.Bit1 k) mod n = x * ((x * x) ^ numeral k mod n) mod n"
    by (simp only: mod_mult_right_eq)
  then show ?thesis unfolding modexp_def by (simp only: power_mod)
qed

lemmas modexp_eval = modexp_0 modexp_1 modexp_Suc_0 modexp_One modexp_Bit0 modexp_Bit1

lemma digit_char_of_char: "k < 10 \<Longrightarrow> (of_char (digit_char k) :: nat) = 48 + k"
  by (simp add: digit_char_def)

lemma digit_char_is_digit: "k < 10 \<Longrightarrow> is_digit (digit_char k)"
  by (simp add: is_digit_def digit_char_of_char)

lemma is_digit_not_space: "is_digit c \<Longrightarrow> \<not> is_space c"
  by (auto simp: is_digit_def is_space_def)

lemma is_digit_not_sign: "is_digit c \<Longrightarrow> c \<noteq> CHR ''-'' \<and> c \<noteq> CHR ''+''"
  by (auto simp: is_digit_def)

lemma str_nat_digits: "list_all is_digit (str_nat k) \<and> str_nat k \<noteq> []"
proof (induction k rule: str_nat.induct)
  case (1 k)
  show ?case
  proof (cases "k < 10")
    case True
    then show ?thesis by (subst (1 2) str_nat.simps) (simp add: digit_char_is_digit)
  next
    case False
    then show ?thesis using 1 by (subst (1 2) str_nat.simps) (simp add: digit_char_is_digit)
  qed
qed

lemma parse_digits_append:
  "list_all is_digit xs \<Longrightarrow>
     parse_digits b acc (xs @ ys)
       = parse_digits (b \<or> xs \<noteq> []) (foldl (\<lambda>a c. 10 * a + (of_char c - 48)) acc xs) ys"
  by (induction xs arbitrary: b acc) simp_all

lemma foldl_str_nat: "foldl (\<lambda>a c. 10 * a + (of_char c - 48)) 0 (str_nat k) = k"
proof (induction k rule: str_nat.induct)
  case (1 k)
  show ?case
  proof (cases "k < 10")
    case True
    then show ?thesis by (subst str_nat.simps) (simp add: digit_char_of_char)
  next
    case False
    then show ?thesis using 1 by (subst str_nat.simps) (simp add: digit_char_of_char)
  qed
qed

lemma parse_str_nat: "parse_digits False 0 (str_nat k) = Some k"
  using parse_digits_append[of "str_nat k" False 0 "[]"] str_nat_digits[of k]
  by (simp add: foldl_str_nat)

lemma str_nat_length: "k < 10 ^ m \<Longrightarrow> 0 < m \<Longrightarrow> length (str_nat k) \<le> m"
proof (induction k arbitrary: m rule: str_nat.induct)
  case (1 k)
  show ?case
  proof (cases "k < 10")
    case True
    then show ?thesis using 1(3) by (subst str_nat.simps) simp
  next
    case False
    obtain m' where m: "m = Suc m'" using 1(3) by (cases m) auto
    have "m' \<noteq> 0" using False 1(2) m by (cases m') auto
    moreover have "k div 10 < 10 ^ m'" using 1(2) m by (simp add: less_mult_imp_div_less mult.commute)
    ultimately have "length (str_nat (k div 10)) \<le> m'" using 1(1) False by simp
    then show ?thesis using False m by (subst str_nat.simps) simp
  qed
qed

lemma filter_digits_str_nat: "filter is_digit (str_nat k) = str_nat k"
  using str_nat_digits[of k] by (simp add: list_all_iff)

lemma parse_int_body_str_nat:
  assumes "k < 10 ^ int_max_str_digits"
  shows "parse_int_body (str_nat k) = Some k"
proof -
  have "0 < int_max_str_digits" by (simp add: int_max_str_digits_def)
  then have "length (str_nat k) \<le> int_max_str_digits" using assms by (intro str_nat_length)
  then show ?thesis by (simp add: parse_int_body_def filter_digits_str_nat parse_str_nat)
qed

lemma int_py_decimal:
  assumes "\<bar>i\<bar> < 10 ^ int_max_str_digits"
  shows "int_py (decimal i) = Inr i"
proof -
  have "int (nat \<bar>i\<bar>) < int (10 ^ int_max_str_digits)" using assms by simp
  then have k: "nat \<bar>i\<bar> < 10 ^ int_max_str_digits" by (simp only: of_nat_less_iff)
  show ?thesis
  proof (cases "i < 0")
    case True
    then have "nat (- i) < 10 ^ int_max_str_digits" using k by simp
    then have "parse_int_body (str_nat (nat (- i))) = Some (nat (- i))"
      by (rule parse_int_body_str_nat)
    then show ?thesis using True by (simp add: decimal_def int_py_def)
  next
    case False
    then have "nat i < 10 ^ int_max_str_digits" using k by simp
    then have p: "parse_int_body (str_nat (nat i)) = Some (nat i)"
      by (rule parse_int_body_str_nat)
    obtain c cs where s: "str_nat (nat i) = c # cs" using str_nat_digits[of "nat i"]
      by (cases "str_nat (nat i)") auto
    then have "is_digit c" using str_nat_digits[of "nat i"] by simp
    then have c: "c \<noteq> CHR ''-''" "c \<noteq> CHR ''+''" using is_digit_not_sign by auto
    have "parse_int_body (c # cs) = Some (nat i)" using p s by simp
    then show ?thesis using False c s by (simp add: decimal_def int_py_def)
  qed
qed

lemma str_decimal: "\<bar>i\<bar> < 10 ^ int_max_str_digits \<Longrightarrow> str i = Inr (decimal i)"
  by (simp add: str_def)

lemma decimal_token: "decimal i \<noteq> [] \<and> list_all (\<lambda>c. \<not> is_space c) (decimal i)"
proof -
  have "list_all (\<lambda>c. \<not> is_space c) (str_nat k)" for k
    using str_nat_digits[of k] by (auto simp: list_all_iff is_digit_not_space)
  moreover have "\<not> is_space CHR ''-''" by (simp add: is_space_def)
  ultimately show ?thesis using str_nat_digits by (simp add: decimal_def)
qed

lemma split_acc_token:
  "list_all (\<lambda>c. \<not> is_space c) xs \<Longrightarrow> split_acc cur (xs @ ys) = split_acc (cur @ xs) ys"
  by (induction xs arbitrary: cur) simp_all

lemma split_acc_join:
  "\<forall>t \<in> set (t0 # ts). t \<noteq> [] \<and> list_all (\<lambda>c. \<not> is_space c) t \<Longrightarrow>
     split_acc cur (str_join '' '' (t0 # ts)) = (cur @ t0) # ts"
proof (induction ts arbitrary: t0 cur)
  case Nil
  then show ?case using split_acc_token[of t0 cur "[]"] by simp
next
  case (Cons u us)
  have sp: "is_space CHR '' ''" by (simp add: is_space_def)
  have "split_acc cur (str_join '' '' (t0 # u # us))
      = split_acc (cur @ t0) (CHR '' '' # str_join '' '' (u # us))"
    using Cons.prems split_acc_token[of t0 cur] by simp
  also have "\<dots> = (cur @ t0) # split_acc [] (str_join '' '' (u # us))"
    using Cons.prems sp by simp
  also have "split_acc [] (str_join '' '' (u # us)) = ([] @ u) # us"
    using Cons.prems by (intro Cons.IH) simp
  finally show ?case by simp
qed

lemma str_split_join:
  "\<forall>t \<in> set ts. t \<noteq> [] \<and> list_all (\<lambda>c. \<not> is_space c) t \<Longrightarrow> str_split (str_join '' '' ts) = ts"
proof (cases ts)
  case Nil
  then show ?thesis by (simp add: str_split_def)
next
  case (Cons t0 ts')
  assume "\<forall>t \<in> set ts. t \<noteq> [] \<and> list_all (\<lambda>c. \<not> is_space c) t"
  then show ?thesis using split_acc_join[of t0 ts' "[]"] Cons by (simp add: str_split_def)
qed

lemma str_split_join_decimal:
  "str_split (str_join '' '' (map decimal cs)) = map decimal cs"
  by (rule str_split_join) (simp add: decimal_token)

lemma map_err_map: "map_err f (map g xs) = map_err (\<lambda>x. f (g x)) xs"
  by (induction xs) (simp_all split: sum.splits)

lemma map_err_Inr: "(\<And>x. x \<in> set xs \<Longrightarrow> f x = Inr (g x)) \<Longrightarrow> map_err f xs = Inr (map g xs)"
  by (induction xs) simp_all

lemma map_err_cong: "(\<And>x. x \<in> set xs \<Longrightarrow> f x = g x) \<Longrightarrow> map_err f xs = map_err g xs"
  by (induction xs) (simp_all split: sum.splits)

lemma decrypt_join:
  assumes "\<forall>c \<in> set cs. \<bar>c\<bar> < 10 ^ int_max_str_digits"
  shows "decrypt (str_join '' '' (map decimal cs)) n d
           = map_err (\<lambda>v. if n = 0 then Inl ZeroDivisionError else chr (v ^ d mod n)) cs"
proof -
  have "decrypt (str_join '' '' (map decimal cs)) n d
      = map_err (\<lambda>c. case int_py (decimal c) of
                        Inl err \<Rightarrow> Inl err
                      | Inr v \<Rightarrow> if n = 0 then Inl ZeroDivisionError else chr (v ^ d mod n)) cs"
    by (simp only: decrypt_def str_split_join_decimal map_err_map)
  also have "\<dots> = map_err (\<lambda>v. if n = 0 then Inl ZeroDivisionError else chr (v ^ d mod n)) cs"
    using assms by (intro map_err_cong) (simp add: int_py_decimal)
  finally show ?thesis .
qed

lemma encrypt_values:
  assumes "n \<noteq> 0" "\<bar>n\<bar> \<le> 10 ^ int_max_str_digits"
  shows "encrypt msg n e = Inr (str_join '' '' (map decimal (map (\<lambda>i. int i ^ e mod n) msg)))"
proof -
  have "map_err (\<lambda>i. if n = 0 then Inl ZeroDivisionError else Inr (int i ^ e mod n)) msg
      = Inr (map (\<lambda>i. int i ^ e mod n) msg)"
    using assms(1) by (intro map_err_Inr) simp
  moreover have "str (x mod n) = Inr (decimal (x mod n))" for x
  proof (rule str_decimal)
    have "\<bar>x mod n\<bar> < \<bar>n\<bar>" using assms(1) by (rule abs_mod_less)
    then show "\<bar>x mod n\<bar> < 10 ^ int_max_str_digits" using assms(2) by linarith
  qed
  then have "map_err str (map (\<lambda>i. int i ^ e mod n) msg)
      = Inr (map decimal (map (\<lambda>i. int i ^ e mod n) msg))"
    by (intro map_err_Inr) auto
  ultimately show ?thesis by (simp add: encrypt_def)
qed

section \<open>Trial division, the private exponent and generated keys\<close>

lemma prime_loop_iff: "prime_loop num is \<longleftrightarrow> (\<forall>i \<in> set is. num mod i \<noteq> 0)"
  by (induction "is") auto

lemma trial_division_iff:
  "(\<forall>i \<in> {2..num - 1}. num mod i \<noteq> 0) \<longleftrightarrow> (\<forall>m. 1 < m \<and> m < num \<longrightarrow> \<not> m dvd (num::int))"
proof (intro iffI allI impI ballI)
  fix m assume a: "\<forall>i \<in> {2..num - 1}. num mod i \<noteq> 0" and "1 < m \<and> m < num"
  then have "m \<in> {2..num - 1}" by simp
  with a have "num mod m \<noteq> 0" by (rule bspec)
  then show "\<not> m dvd num" by (simp add: dvd_eq_mod_eq_0)
next
  fix i assume a: "\<forall>m. 1 < m \<and> m < num \<longrightarrow> \<not> m dvd num" and "i \<in> {2..num - 1}"
  then have "1 < i \<and> i < num" by simp
  with a have "\<not> i dvd num" by simp
  then show "num mod i \<noteq> 0" by (simp add: dvd_eq_mod_eq_0)
qed

lemma prime_iff: "1 < num \<Longrightarrow> prime num \<longleftrightarrow> prime_number num"
proof (cases "num = 2")
  case True
  then show ?thesis by (auto simp: prime_def prime_number_def)
next
  case False
  assume n: "1 < num"
  then have "prime num \<longleftrightarrow> (\<forall>i \<in> {2..num - 1}. num mod i \<noteq> 0)"
    using False by (simp add: prime_def prime_loop_iff)
  then show ?thesis using n by (simp add: prime_number_def trial_division_iff)
qed

lemma prime_list_iff: "p \<in> set prime_list \<longleftrightarrow> 127 \<le> p \<and> p \<le> 500 \<and> prime p"
  unfolding prime_list_def set_filter set_upto by auto

lemma e_candidates_iff:
  "e \<in> set (e_candidates n phi_n) \<longleftrightarrow> 2 \<le> e \<and> int e < n \<and> gcd (int e) phi_n = 1"
  by (auto simp: e_candidates_def)

lemma d_search_finds:
  assumes "d0 \<le> t" "(int e * int t) mod phi = 1"
  shows "\<exists>d. d_search e phi d0 = Some d \<and> d0 \<le> d \<and> d \<le> t \<and> (int e * int d) mod phi = 1"
  using assms
proof (induction "t - d0" arbitrary: d0 rule: less_induct)
  case less
  show ?case
  proof (cases "(int e * int d0) mod phi = 1")
    case True
    then have "d_search e phi d0 = Some d0" by (subst d_search.simps) simp
    then show ?thesis using True less.prems by auto
  next
    case False
    then have "d0 \<noteq> t" using less.prems by auto
    then have lt: "d0 + 1 \<le> t" using less.prems by simp
    then have "t - (d0 + 1) < t - d0" by simp
    from less.hyps[OF this lt less.prems(2)]
    obtain d where d: "d_search e phi (d0 + 1) = Some d" "d0 + 1 \<le> d" "d \<le> t"
      "(int e * int d) mod phi = 1" by blast
    have "d_search e phi d0 = Some d" using False d(1) by (subst d_search.simps) simp
    then show ?thesis using d by auto
  qed
qed

lemma inverse_unique:
  assumes "gcd e phi = 1" "0 < d" "d < phi" "0 < d'" "d' < phi"
    and "(e * d) mod phi = 1" "(e * d') mod phi = (1::int)"
  shows "d = d'"
proof -
  have "(e * d) mod phi = (e * d') mod phi" using assms(6,7) by simp
  then have "phi dvd e * d - e * d'" by (rule mod_eq_dvd_iff[THEN iffD1])
  then have "phi dvd e * (d - d')" by (simp add: right_diff_distrib)
  moreover have "coprime phi e" using assms(1) by (simp add: coprime_iff_gcd_eq_1 gcd.commute)
  ultimately have "phi dvd d - d'" by (simp add: coprime_dvd_mult_right_iff)
  moreover have "\<bar>d - d'\<bar> < phi" using assms(2-5) by linarith
  ultimately have "d - d' = 0" using zdvd_not_zless[of "\<bar>d - d'\<bar>" phi]
    by (cases "d - d' = 0") auto
  then show ?thesis by simp
qed

lemma d_search_inverse:
  assumes "1 < e" "1 < phi" "gcd (int e) phi = 1"
  shows "\<exists>d. d_search e phi 1 = Some d \<and> modinv (int e) phi = Inr (int d)
            \<and> 0 < d \<and> int d < phi \<and> (int e * int d) mod phi = 1"
proof -
  have "1 \<le> int e" using assms(1) by simp
  from modinv_inverse[OF this assms(2,3)]
  obtain dm where dm: "modinv (int e) phi = Inr dm" "0 < dm" "dm < phi" "(int e * dm) mod phi = 1"
    by blast
  define t where "t = nat dm"
  have t: "int t = dm" "1 \<le> t" using dm(2) by (simp_all add: t_def)
  have "(int e * int t) mod phi = 1" using dm(4) t(1) by simp
  from d_search_finds[OF t(2) this]
  obtain d where d: "d_search e phi 1 = Some d" "1 \<le> d" "d \<le> t" "(int e * int d) mod phi = 1"
    by blast
  have "int d = dm"
  proof (rule inverse_unique[OF assms(3)])
    show "0 < int d" using d(2) by simp
    show "int d < phi" using d(3) t(1) dm(3) by linarith
    show "0 < dm" by (rule dm(2))
    show "dm < phi" by (rule dm(3))
    show "(int e * int d) mod phi = 1" by (rule d(4))
    show "(int e * dm) mod phi = 1" by (rule dm(4))
  qed
  then show ?thesis using d(1,2,4) dm(1,3) by simp
qed

lemma pow_nonneg: "m \<noteq> 0 \<Longrightarrow> 0 \<le> e \<Longrightarrow> pow b e m = Inr (modexp b (nat e) m)"
  by (simp add: pow_def modexp_def)

lemma generate_keypair_rsa:
  assumes "prime_number p" "prime_number q" "p \<noteq> q"
  shows "\<exists>e d. generate_keypair p q = Some (Inr ((e, p * q), (d, p * q)))
           \<and> 0 < e \<and> 0 < d
           \<and> (\<forall>x. modexp (modexp x (nat e) (p * q)) (nat d) (p * q) = x mod (p * q))
           \<and> (\<forall>x. modexp (modexp x (nat d) (p * q)) (nat e) (p * q) = x mod (p * q))"
proof -
  let ?n = "p * q" and ?phi = "(p - 1) * (q - 1)"
  have p1: "1 < p" and q1: "1 < q" using assms by (simp_all add: prime_number_def)
  have "p \<noteq> 2 \<or> q \<noteq> 2" using assms(3) by auto
  then have "(2 \<le> p - 1 \<and> 1 \<le> q - 1) \<or> (1 \<le> p - 1 \<and> 2 \<le> q - 1)" using p1 q1 by auto
  then have "2 \<le> ?phi"
  proof
    assume "2 \<le> p - 1 \<and> 1 \<le> q - 1"
    then have "2 * 1 \<le> (p - 1) * (q - 1)" by (intro mult_mono) simp_all
    then show ?thesis by simp
  next
    assume "1 \<le> p - 1 \<and> 2 \<le> q - 1"
    then have "1 * 2 \<le> (p - 1) * (q - 1)" by (intro mult_mono) simp_all
    then show ?thesis by simp
  qed
  then have phi: "1 < ?phi" by simp
  from generate_keypair_result[OF phi]
  obtain e d where k: "generate_keypair p q = Some (Inr ((e, ?n), (d, ?n)))"
    and e: "1 < e" and d: "0 < d" and ed: "(e * d) mod ?phi = 1"
    by (elim exE conjE) (rule that)
  have "int (nat e * nat d) = e * d" using e d by simp
  then have kk: "int (nat e * nat d) mod ?phi = 1" using ed by simp
  have r: "x ^ (nat e * nat d) mod ?n = x mod ?n" for x
    by (rule rsa_core[OF assms kk])
  have a: "modexp (modexp x (nat e) ?n) (nat d) ?n = x mod ?n" for x
    unfolding modexp_def by (simp only: power_mod power_mult[symmetric] r)
  have b: "modexp (modexp x (nat d) ?n) (nat e) ?n = x mod ?n" for x
    unfolding modexp_def by (simp only: power_mod power_mult[symmetric] mult.commute[of "nat d"] r)
  show ?thesis
  proof (intro exI conjI allI)
    show "generate_keypair p q = Some (Inr ((e, ?n), (d, ?n)))" by (rule k)
    show "0 < e" using e by simp
    show "0 < d" by (rule d)
    show "modexp (modexp x (nat e) ?n) (nat d) ?n = x mod ?n" for x by (rule a)
    show "modexp (modexp x (nat d) ?n) (nat e) ?n = x mod ?n" for x by (rule b)
  qed
qed

section \<open>The primality test on non-positive numbers\<close>

text \<open>
  Claim C4, at the inputs where the code departs from it: the specification wants the
  primality predicate to answer False for every \<open>num \<le> 1\<close>, in particular for 0 and -3.
  \<open>prime\<close> of 4 RSA.py only excludes \<open>num = 1\<close>; for 0 and for negative numbers the
  range of trial divisors is empty and the answer is True. The sibling test
  \<open>is_prime\<close> of 3 Diffie-Hellman.py answers False there, whatever the square root is.
  On the other numbers the claim lists, \<open>prime\<close> answers as the claim says; for
  every \<open>num > 1\<close> it is primality (lemma \<open>prime_iff\<close>).
\<close>

theorem prime_nonpositive:
  "prime 0 = True \<and> prime (- 3) = True
   \<and> is_prime isqrt 0 = Inr False \<and> is_prime isqrt (- 3) = Inr False
   \<and> prime 2 \<and> prime 3 \<and> prime 5 \<and> prime 7 \<and> prime 11 \<and> prime 97
   \<and> \<not> prime 1 \<and> \<not> prime 100 \<and> \<not> prime 91"
  by (simp add: prime_def is_prime_def)

section \<open>Evaluation helpers\<close>

lemma gcd_py_eval: "0 \<le> a \<Longrightarrow> 0 \<le> b \<Longrightarrow> gcd a b = gcd_py a b"
  by (simp add: gcd_py_eq)

lemma generate_keypair_61_53:
  "generate_keypair 61 53 = Some (Inr ((65537, 3233), (2753, 3233)))"
  by (simp add: generate_keypair_def gcd_py.simps modinv_def modinv_loop.simps)

lemma prime_number_61: "prime_number 61"
  by (simp add: prime_iff[symmetric] prime_def)

lemma prime_number_53: "prime_number 53"
  by (simp add: prime_iff[symmetric] prime_def)

section \<open>The modular inverse on arguments that are not coprime\<close>

text \<open>
  Claim C6, as the code has it. The claim wants \<open>modinv(e, phi)\<close> to signal a typed
  KeyGenerationError whenever \<open>gcd(e, phi) \<noteq> 1\<close>. The function has no such check:
  for \<open>e > 1\<close> and \<open>phi \<ge> 0\<close> not coprime, the Euclidean loop reaches \<open>m = 0\<close> and
  the division \<open>a // m\<close> raises ZeroDivisionError, so no integer is returned; for
  \<open>e \<le> 1\<close> the loop is skipped and 1 is returned whatever \<open>phi\<close> is.
\<close>

theorem modinv_not_coprime:
  "(1 < e \<and> 0 \<le> phi \<and> gcd e phi \<noteq> 1 \<longrightarrow> modinv e phi = Inl ZeroDivisionError)
   \<and> (e \<le> 1 \<longrightarrow> modinv e phi = Inr 1)"
proof (intro conjI impI)
  assume "1 < e \<and> 0 \<le> phi \<and> gcd e phi \<noteq> 1"
  then have "modinv_loop e phi 0 1 = Inl ZeroDivisionError" by (simp add: modinv_loop_fails)
  then show "modinv e phi = Inl ZeroDivisionError" by (simp add: modinv_def)
next
  assume "e \<le> 1"
  then have "modinv_loop e phi 0 1 = Inr 1" by (subst modinv_loop.simps) simp
  then show "modinv e phi = Inr 1" by (simp add: modinv_def)
qed

text \<open>The theorem at \<open>modinv(6, 4)\<close> and at \<open>modinv(0, 5)\<close>.\<close>

theorem modinv_not_coprime_witness:
  "modinv 6 4 = Inl ZeroDivisionError \<and> modinv 0 5 = Inr 1"
proof -
  have "gcd (6::int) 4 \<noteq> 1" by (simp add: gcd_py_eval gcd_py.simps)
  then have "modinv 6 4 = Inl ZeroDivisionError" using modinv_not_coprime[of 6 4] by simp
  moreover have "modinv 0 5 = Inr 1" using modinv_not_coprime[of 0 5] by simp
  ultimately show ?thesis by simp
qed

text \<open>
  Claim C6 as stated fails: \<open>modinv(4, 2)\<close> ends in the untyped ZeroDivisionError, and
  \<open>modinv(0, 7)\<close> returns 1 although \<open>gcd(0, 7) = 7\<close> and \<open>0 * 1\<close> is not 1 modulo 7.
\<close>

theorem modinv_not_coprime_counterexample:
  "gcd (4::int) 2 \<noteq> 1 \<and> modinv 4 2 = Inl ZeroDivisionError
   \<and> gcd (0::int) 7 \<noteq> 1 \<and> modinv 0 7 = Inr 1 \<and> (0 * 1) mod 7 \<noteq> (1::int)"
  by (simp add: gcd_py_eval gcd_py.simps modinv_def modinv_loop.simps)

section \<open>The public exponent\<close>

text \<open>
  Claim C5, as the code has it. For all \<open>p\<close>, \<open>q\<close> (primes or not) with
  \<open>phi = (p - 1) * (q - 1) > 1\<close>, \<open>generate_keypair\<close> returns a key pair, so the
  search for \<open>e\<close> has ended. The public exponent is 65537 when
  \<open>gcd(65537, phi) = 1\<close>, and otherwise the least odd number from 3 on that is coprime
  to \<open>phi\<close>. In both cases \<open>1 < e\<close> and \<open>gcd(e, phi) = 1\<close>; the bound \<open>e < phi\<close>
  is only guaranteed when the search was run.
\<close>

theorem public_exponent_choice:
  assumes "1 < (p - 1) * (q - 1)"
  shows "\<exists>e d. generate_keypair p q = Some (Inr ((e, p * q), (d, p * q)))
           \<and> 1 < e \<and> gcd e ((p - 1) * (q - 1)) = 1
           \<and> (gcd 65537 ((p - 1) * (q - 1)) = 1 \<longrightarrow> e = 65537)
           \<and> (gcd 65537 ((p - 1) * (q - 1)) \<noteq> 1 \<longrightarrow>
                 odd e \<and> 3 \<le> e \<and> e < (p - 1) * (q - 1)
                 \<and> (\<forall>c. 3 \<le> c \<and> c < e \<and> odd c \<longrightarrow> gcd c ((p - 1) * (q - 1)) \<noteq> 1))"
proof -
  from generate_keypair_result[OF assms]
  obtain e d where k: "generate_keypair p q = Some (Inr ((e, p * q), (d, p * q)))"
    and e: "1 < e" "gcd e ((p - 1) * (q - 1)) = 1"
      "gcd 65537 ((p - 1) * (q - 1)) = 1 \<longrightarrow> e = 65537"
      "gcd 65537 ((p - 1) * (q - 1)) \<noteq> 1 \<longrightarrow>
                 odd e \<and> 3 \<le> e \<and> e < (p - 1) * (q - 1)
                 \<and> (\<forall>c. 3 \<le> c \<and> c < e \<and> odd c \<longrightarrow> gcd c ((p - 1) * (q - 1)) \<noteq> 1)"
    by (elim exE conjE) (rule that)
  show ?thesis
  proof (intro exI conjI)
    show "generate_keypair p q = Some (Inr ((e, p * q), (d, p * q)))" by (rule k)
  qed (fact e)+
qed

text \<open>The theorem at the primes of the demonstration, 61 and 53.\<close>

theorem public_exponent_choice_witness:
  "\<exists>d. generate_keypair 61 53 = Some (Inr ((65537, 3233), (d, 3233)))
       \<and> gcd (65537::int) ((61 - 1) * (53 - 1)) = 1"
proof -
  have "(1::int) < (61 - 1) * (53 - 1)" by simp
  from public_exponent_choice[OF this]
  obtain e d where k: "generate_keypair 61 53 = Some (Inr ((e, 61 * 53), (d, 61 * 53)))"
    and e: "gcd e ((61 - 1) * (53 - 1)) = 1"
    by (elim exE conjE) (rule that)
  have "e = 65537" using k generate_keypair_61_53 by simp
  then show ?thesis using k e by simp
qed

text \<open>
  Claim C5 as stated fails at the primes of the demonstration: \<open>phi = 3120 > 1\<close>, and
  the public exponent 65537 is not below \<open>phi\<close>.
\<close>

theorem public_exponent_choice_counterexample:
  "generate_keypair 61 53 = Some (Inr ((65537, 3233), (2753, 3233)))
   \<and> (1::int) < (61 - 1) * (53 - 1) \<and> \<not> (65537::int) < (61 - 1) * (53 - 1)"
  by (simp add: generate_keypair_61_53)

section \<open>The two computations of the private exponent\<close>

text \<open>
  Claim C7: for \<open>e > 1\<close> and \<open>phi > 1\<close> with \<open>gcd(e, phi) = 1\<close>, the search of
  4 RSA.py, which counts \<open>d\<close> up from 1 until \<open>(e * d) % phi == 1\<close>, ends, and its
  result is the value \<open>modinv(e, phi)\<close> of 6 Digital Signature.py returns: the least
  \<open>d \<ge> 1\<close> with \<open>e * d\<close> congruent to 1, which is the only such \<open>d\<close> in
  \<open>0 < d < phi\<close>.
\<close>

theorem d_search_eq_modinv:
  assumes "1 < e" "1 < phi" "gcd (int e) phi = 1"
  shows "\<exists>d. d_search e phi 1 = Some d \<and> modinv (int e) phi = Inr (int d)
            \<and> 0 < d \<and> int d < phi \<and> (int e * int d) mod phi = 1
            \<and> (\<forall>c. 1 \<le> c \<and> c < d \<longrightarrow> (int e * int c) mod phi \<noteq> 1)
            \<and> (\<forall>d'. 0 < d' \<and> d' < phi \<and> (int e * d') mod phi = 1 \<longrightarrow> d' = int d)"
proof -
  from d_search_inverse[OF assms]
  obtain d where d: "d_search e phi 1 = Some d" "modinv (int e) phi = Inr (int d)"
    "0 < d" "int d < phi" "(int e * int d) mod phi = 1"
    by (elim exE conjE) (rule that)
  have u: "d' = int d" if "0 < d' \<and> d' < phi \<and> (int e * d') mod phi = 1" for d'
  proof (rule inverse_unique[OF assms(3)])
    show "0 < d'" "d' < phi" "(int e * d') mod phi = 1" using that by simp_all
    show "0 < int d" using d(3) by simp
    show "int d < phi" by (rule d(4))
    show "(int e * int d) mod phi = 1" by (rule d(5))
  qed
  have m: "(int e * int c) mod phi \<noteq> 1" if "1 \<le> c \<and> c < d" for c
  proof
    assume "(int e * int c) mod phi = 1"
    moreover have "0 < int c" "int c < phi" using that d(4) by simp_all
    ultimately have "0 < int c \<and> int c < phi \<and> (int e * int c) mod phi = 1" by simp
    then have "int c = int d" by (rule u)
    then show False using that by simp
  qed
  show ?thesis
  proof (intro exI conjI allI impI)
    show "d_search e phi 1 = Some d" by (rule d(1))
    show "modinv (int e) phi = Inr (int d)" by (rule d(2))
    show "0 < d" by (rule d(3))
    show "int d < phi" by (rule d(4))
    show "(int e * int d) mod phi = 1" by (rule d(5))
    show "(int e * int c) mod phi \<noteq> 1" if "1 \<le> c \<and> c < d" for c using that by (rule m)
    show "d' = int d" if "0 < d' \<and> d' < phi \<and> (int e * d') mod phi = 1" for d'
      using that by (rule u)
  qed
qed

text \<open>The theorem at \<open>e = 17\<close>, \<open>phi = 60 * 52 = 3120\<close>.\<close>

theorem d_search_eq_modinv_witness:
  "d_search 17 3120 1 = Some 2753 \<and> modinv 17 3120 = Inr 2753"
proof -
  have g: "gcd (int 17) 3120 = 1" by (simp add: gcd_py_eval gcd_py.simps)
  have "(1::nat) < 17" "(1::int) < 3120" by simp_all
  from d_search_eq_modinv[OF this g]
  obtain d where d: "d_search 17 3120 1 = Some d" "modinv (int 17) 3120 = Inr (int d)"
    by (elim exE conjE) (rule that)
  have "modinv 17 3120 = Inr 2753" by (simp add: modinv_def modinv_loop.simps)
  then have "d = 2753" using d(2) by simp
  then show ?thesis using d by simp
qed

section \<open>The exponents of a generated key are inverse to each other\<close>

text \<open>
  The exponent-inverse law for distinct primes. For distinct primes \<open>p\<close> and \<open>q\<close>,
  \<open>generate_keypair(p, q)\<close> returns \<open>(e, n), (d, n)\<close> with \<open>n = p * q\<close>, and for
  every integer \<open>x\<close> (in particular \<open>0 \<le> x < n\<close>) \<open>pow(x, e, n)\<close> is
  \<open>x ^ e mod n\<close> and \<open>pow(x ^ e mod n, d, n)\<close> is \<open>x mod n\<close>.
\<close>

theorem exponent_inverse_law:
  assumes "prime_number p" "prime_number q" "p \<noteq> q"
  shows "\<exists>e d. generate_keypair p q = Some (Inr ((e, p * q), (d, p * q)))
           \<and> (\<forall>x. pow x e (p * q) = Inr (modexp x (nat e) (p * q))
                  \<and> pow (modexp x (nat e) (p * q)) d (p * q) = Inr (x mod (p * q)))"
proof -
  from generate_keypair_rsa[OF assms]
  obtain e d where k: "generate_keypair p q = Some (Inr ((e, p * q), (d, p * q)))"
    and e: "0 < e" and d: "0 < d"
    and r: "\<forall>x. modexp (modexp x (nat e) (p * q)) (nat d) (p * q) = x mod (p * q)"
    by (elim exE conjE) (rule that)
  have n: "p * q \<noteq> 0" using assms by (simp add: prime_number_def)
  have a: "pow x e (p * q) = Inr (modexp x (nat e) (p * q))" for x
    using n e by (simp add: pow_nonneg)
  have b: "pow (modexp x (nat e) (p * q)) d (p * q) = Inr (x mod (p * q))" for x
    using n d r by (simp add: pow_nonneg)
  show ?thesis
  proof (intro exI conjI allI)
    show "generate_keypair p q = Some (Inr ((e, p * q), (d, p * q)))" by (rule k)
    show "pow x e (p * q) = Inr (modexp x (nat e) (p * q))" for x by (rule a)
    show "pow (modexp x (nat e) (p * q)) d (p * q) = Inr (x mod (p * q))" for x by (rule b)
  qed
qed

text \<open>The theorem at \<open>p = 61\<close>, \<open>q = 53\<close> and \<open>x = 65\<close>.\<close>

theorem exponent_inverse_law_witness:
  "pow 65 65537 3233 = Inr 2790 \<and> pow 2790 2753 3233 = Inr 65"
proof -
  have "(61::int) \<noteq> 53" by simp
  from exponent_inverse_law[OF prime_number_61 prime_number_53 this]
  obtain e d where k: "generate_keypair 61 53 = Some (Inr ((e, 61 * 53), (d, 61 * 53)))"
    and r: "\<forall>x. pow x e (61 * 53) = Inr (modexp x (nat e) (61 * 53))
                  \<and> pow (modexp x (nat e) (61 * 53)) d (61 * 53) = Inr (x mod (61 * 53))"
    by (elim exE conjE) (rule that)
  have ed: "e = 65537" "d = 2753" using k generate_keypair_61_53 by simp_all
  have m: "modexp 65 65537 3233 = 2790" by (simp add: modexp_eval)
  have "pow 65 e (61 * 53) = Inr (modexp 65 (nat e) (61 * 53))
      \<and> pow (modexp 65 (nat e) (61 * 53)) d (61 * 53) = Inr (65 mod (61 * 53))"
    using r by (rule spec)
  then show ?thesis unfolding ed by (simp add: m)
qed

text \<open>
  Claim C2, at the input where the code departs from it. The claim states the law for
  every key that \<open>generate_keypair\<close> produces from two primes. The function does not
  reject equal primes: \<open>generate_keypair(3, 3)\<close> returns \<open>(65537, 9), (1, 9)\<close>, and
  \<open>x = 3\<close> is sent to 0 by the public exponent and stays 0 under the private one.
\<close>

theorem inverse_law_fails_for_equal_primes:
  "prime 3 \<and> generate_keypair 3 3 = Some (Inr ((65537, 9), (1, 9)))
   \<and> pow 3 65537 9 = Inr 0 \<and> pow 0 1 9 = Inr 0 \<and> (3::int) mod 9 \<noteq> 0"
proof -
  have "prime 3" by (simp add: prime_def)
  moreover have "generate_keypair 3 3 = Some (Inr ((65537, 9), (1, 9)))"
    by (simp add: generate_keypair_def gcd_py.simps modinv_def modinv_loop.simps)
  moreover have "pow 3 65537 9 = Inr 0" by (simp add: pow_nonneg modexp_eval)
  moreover have "pow 0 1 9 = Inr 0" by (simp add: pow_nonneg modexp_eval)
  ultimately show ?thesis by simp
qed

section \<open>Signatures\<close>

lemma sign_eq:
  "n \<noteq> 0 \<Longrightarrow> 0 \<le> d \<Longrightarrow> sign H m (d, n) = Inr (modexp (int (H m) mod n) (nat d) n)"
  by (simp add: sign_def pow_nonneg)

lemma verify_eq:
  "n \<noteq> 0 \<Longrightarrow> 0 \<le> e \<Longrightarrow>
     verify H m s (e, n) = Inr (int (H m) mod n = modexp s (nat e) n)"
  by (simp add: verify_def pow_nonneg)

lemma signature_scheme:
  assumes "prime_number p" "prime_number q" "p \<noteq> q"
  shows "\<exists>e d. generate_keypair p q = Some (Inr ((e, p * q), (d, p * q)))
           \<and> (\<forall>H m. sign H m (d, p * q) = Inr (modexp (int (H m) mod (p * q)) (nat d) (p * q)))
           \<and> (\<forall>H m s. verify H m s (e, p * q) = Inr (int (H m) mod (p * q) = modexp s (nat e) (p * q)))
           \<and> (\<forall>x. modexp (modexp x (nat e) (p * q)) (nat d) (p * q) = x mod (p * q))
           \<and> (\<forall>x. modexp (modexp x (nat d) (p * q)) (nat e) (p * q) = x mod (p * q))"
proof -
  from generate_keypair_rsa[OF assms]
  obtain e d where k: "generate_keypair p q = Some (Inr ((e, p * q), (d, p * q)))"
    and e: "0 < e" and d: "0 < d"
    and r1: "\<forall>x. modexp (modexp x (nat e) (p * q)) (nat d) (p * q) = x mod (p * q)"
    and r2: "\<forall>x. modexp (modexp x (nat d) (p * q)) (nat e) (p * q) = x mod (p * q)"
    by (elim exE conjE) (rule that)
  have n: "p * q \<noteq> 0" using assms by (simp add: prime_number_def)
  show ?thesis
  proof (intro exI conjI allI)
    show "generate_keypair p q = Some (Inr ((e, p * q), (d, p * q)))" by (rule k)
    show "sign H m (d, p * q) = Inr (modexp (int (H m) mod (p * q)) (nat d) (p * q))" for H :: "'a \<Rightarrow> nat" and m
      using n d by (simp add: sign_eq)
    show "verify H m s (e, p * q) = Inr (int (H m) mod (p * q) = modexp s (nat e) (p * q))" for H :: "'b \<Rightarrow> nat" and m s
      using n e by (simp add: verify_eq)
    show "modexp (modexp x (nat e) (p * q)) (nat d) (p * q) = x mod (p * q)" for x
      using r1 by (rule spec)
    show "modexp (modexp x (nat d) (p * q)) (nat e) (p * q) = x mod (p * q)" for x
      using r2 by (rule spec)
  qed
qed

lemma prime_number_2: "prime_number 2"
  by (simp add: prime_iff[symmetric] prime_def)

lemma prime_number_3: "prime_number 3"
  by (simp add: prime_iff[symmetric] prime_def)

lemma generate_keypair_2_3: "generate_keypair 2 3 = Some (Inr ((65537, 6), (1, 6)))"
  by (simp add: generate_keypair_def gcd_py.simps modinv_def modinv_loop.simps)

lemma modexp_65537_6: "modexp x 65537 6 = x mod 6"
proof -
  have "int 65537 mod ((2 - 1) * (3 - 1)) = 1" by simp
  from rsa_core[OF prime_number_2 prime_number_3 _ this, of x]
  show ?thesis by (simp add: modexp_def)
qed

lemma digest_collision:
  fixes H :: "string \<Rightarrow> nat"
  shows "\<exists>c c'. c \<noteq> c' \<and> int (H [c]) mod 6 = int (H [c']) mod 6"
proof -
  let ?f = "\<lambda>k::nat. int (H [char_of k]) mod 6"
  have "?f ` {0..<7} \<subseteq> {0..<6}" by (intro image_subsetI) simp
  then have "card (?f ` {0..<7}) \<le> card {0..<6::int}" by (intro card_mono) simp_all
  then have "card (?f ` {0..<7}) < card {0..<7::nat}" by simp
  then have "\<not> inj_on ?f {0..<7}" by (rule pigeonhole)
  then obtain k k' where k: "k < 7" "k' < 7" "k \<noteq> k'" "?f k = ?f k'"
    unfolding inj_on_def by auto
  have "(of_char (char_of k :: char) :: nat) = k" "(of_char (char_of k' :: char) :: nat) = k'"
    using k(1,2) by simp_all
  then have "(char_of k :: char) \<noteq> char_of k'" using k(3) by metis
  then show ?thesis using k(4) by blast
qed

text \<open>
  Claim C10: for distinct primes \<open>p\<close> and \<open>q\<close>, \<open>generate_keypair(p, q)\<close> returns
  a key pair such that, for every digest function and every message \<open>m\<close>,
  \<open>sign(m, private_key)\<close> returns an integer \<open>s\<close> with \<open>0 \<le> s < n\<close>, and among
  the integers \<open>s'\<close> with \<open>0 \<le> s' < n\<close> the call \<open>verify(m, s', public_key)\<close>
  returns True for \<open>s' = s\<close> and for no other.
\<close>

theorem unique_signature:
  assumes "prime_number p" "prime_number q" "p \<noteq> q"
  shows "\<exists>e d. generate_keypair p q = Some (Inr ((e, p * q), (d, p * q)))
           \<and> (\<forall>H m. \<exists>s. sign H m (d, p * q) = Inr s \<and> 0 \<le> s \<and> s < p * q
                  \<and> (\<forall>s'. 0 \<le> s' \<and> s' < p * q \<longrightarrow>
                        (verify H m s' (e, p * q) = Inr True) = (s' = s)))"
proof -
  let ?n = "p * q"
  from signature_scheme[OF assms]
  obtain e d where k: "generate_keypair p q = Some (Inr ((e, ?n), (d, ?n)))"
    and sg: "\<forall>(H :: 'a \<Rightarrow> nat) m. sign H m (d, ?n) = Inr (modexp (int (H m) mod ?n) (nat d) ?n)"
    and vf: "\<forall>(H :: 'a \<Rightarrow> nat) m s. verify H m s (e, ?n) = Inr (int (H m) mod ?n = modexp s (nat e) ?n)"
    and r1: "\<forall>x. modexp (modexp x (nat e) ?n) (nat d) ?n = x mod ?n"
    and r2: "\<forall>x. modexp (modexp x (nat d) ?n) (nat e) ?n = x mod ?n"
    by (elim exE conjE) (rule that)
  have n: "0 < ?n" using assms by (simp add: prime_number_def)
  have main: "\<exists>s. sign H m (d, ?n) = Inr s \<and> 0 \<le> s \<and> s < ?n
                  \<and> (\<forall>s'. 0 \<le> s' \<and> s' < ?n \<longrightarrow> (verify H m s' (e, ?n) = Inr True) = (s' = s))"
    for H :: "'a \<Rightarrow> nat" and m
  proof -
    define h where "h = int (H m) mod ?n"
    define s where "s = modexp h (nat d) ?n"
    have hm: "h mod ?n = h" by (simp add: h_def)
    have s1: "sign H m (d, ?n) = Inr s" using sg by (simp add: s_def h_def)
    have s2: "0 \<le> s" "s < ?n" using n by (simp_all add: s_def modexp_def)
    have rec: "modexp s (nat e) ?n = h" using r2 hm by (simp add: s_def)
    have u: "(verify H m s' (e, ?n) = Inr True) = (s' = s)" if "0 \<le> s' \<and> s' < ?n" for s'
    proof
      assume "verify H m s' (e, ?n) = Inr True"
      then have "h = modexp s' (nat e) ?n" using vf by (simp add: h_def)
      then have "s = modexp (modexp s' (nat e) ?n) (nat d) ?n" by (simp add: s_def)
      also have "\<dots> = s' mod ?n" using r1 by simp
      also have "\<dots> = s'" using that by simp
      finally show "s' = s" by simp
    next
      assume "s' = s"
      then show "verify H m s' (e, ?n) = Inr True" using vf rec by (simp add: h_def)
    qed
    show ?thesis using s1 s2 u by blast
  qed
  from k main show ?thesis by blast
qed

text \<open>The theorem at the primes of the demonstration, 61 and 53.\<close>

theorem unique_signature_witness:
  "\<forall>(H :: string \<Rightarrow> nat) m. \<exists>s. sign H m (2753, 3233) = Inr s \<and> 0 \<le> s \<and> s < 3233
       \<and> verify H m s (65537, 3233) = Inr True"
proof (intro allI)
  fix H :: "string \<Rightarrow> nat" and m
  have "(61::int) \<noteq> 53" by simp
  from unique_signature[OF prime_number_61 prime_number_53 this]
  obtain e d where k: "generate_keypair 61 53 = Some (Inr ((e, 61 * 53), (d, 61 * 53)))"
    and u: "\<forall>(H :: string \<Rightarrow> nat) m. \<exists>s. sign H m (d, 61 * 53) = Inr s \<and> 0 \<le> s \<and> s < 61 * 53
                  \<and> (\<forall>s'. 0 \<le> s' \<and> s' < 61 * 53 \<longrightarrow>
                        (verify H m s' (e, 61 * 53) = Inr True) = (s' = s))"
    by (elim exE conjE) (rule that)
  have ed: "e = 65537" "d = 2753" using k generate_keypair_61_53 by simp_all
  from u obtain s where s: "sign H m (d, 61 * 53) = Inr s" "0 \<le> s" "s < 61 * 53"
    "\<forall>s'. 0 \<le> s' \<and> s' < 61 * 53 \<longrightarrow> (verify H m s' (e, 61 * 53) = Inr True) = (s' = s)"
    by blast
  from s(2,3,4) have "verify H m s (e, 61 * 53) = Inr True" by blast
  then show "\<exists>s. sign H m (2753, 3233) = Inr s \<and> 0 \<le> s \<and> s < 3233
       \<and> verify H m s (65537, 3233) = Inr True"
    using s(1,2,3) unfolding ed by (intro exI[of _ s]) simp
qed

text \<open>
  Claim C3, as the code has it. For distinct primes \<open>p\<close> and \<open>q\<close>, every digest
  function and every message \<open>m\<close>: \<open>sign(m, private_key)\<close> returns a signature
  \<open>s\<close>, \<open>verify(m, s, public_key)\<close> returns True, and for any message \<open>m2\<close>
  \<open>verify(m2, s, public_key)\<close> returns whether the digests of \<open>m2\<close> and \<open>m\<close> agree
  modulo \<open>n\<close>: an altered message is rejected exactly when its reduced digest
  differs.
\<close>

theorem sign_then_verify:
  assumes "prime_number p" "prime_number q" "p \<noteq> q"
  shows "\<exists>e d. generate_keypair p q = Some (Inr ((e, p * q), (d, p * q)))
           \<and> (\<forall>H m. \<exists>s. sign H m (d, p * q) = Inr s
                  \<and> verify H m s (e, p * q) = Inr True
                  \<and> (\<forall>m2. verify H m2 s (e, p * q)
                         = Inr (int (H m2) mod (p * q) = int (H m) mod (p * q))))"
proof -
  let ?n = "p * q"
  from signature_scheme[OF assms]
  obtain e d where k: "generate_keypair p q = Some (Inr ((e, ?n), (d, ?n)))"
    and sg: "\<forall>(H :: 'a \<Rightarrow> nat) m. sign H m (d, ?n) = Inr (modexp (int (H m) mod ?n) (nat d) ?n)"
    and vf: "\<forall>(H :: 'a \<Rightarrow> nat) m s. verify H m s (e, ?n) = Inr (int (H m) mod ?n = modexp s (nat e) ?n)"
    and r2: "\<forall>x. modexp (modexp x (nat d) ?n) (nat e) ?n = x mod ?n"
    by (elim exE conjE) (rule that)
  have main: "\<exists>s. sign H m (d, ?n) = Inr s \<and> verify H m s (e, ?n) = Inr True
                  \<and> (\<forall>m2. verify H m2 s (e, ?n) = Inr (int (H m2) mod ?n = int (H m) mod ?n))"
    for H :: "'a \<Rightarrow> nat" and m
  proof -
    define h where "h = int (H m) mod ?n"
    define s where "s = modexp h (nat d) ?n"
    have hm: "h mod ?n = h" by (simp add: h_def)
    have s1: "sign H m (d, ?n) = Inr s" using sg by (simp add: s_def h_def)
    have rec: "modexp s (nat e) ?n = h" using r2 hm by (simp add: s_def)
    have v: "verify H m2 s (e, ?n) = Inr (int (H m2) mod ?n = int (H m) mod ?n)" for m2
      using vf rec by (simp add: h_def)
    have "verify H m s (e, ?n) = Inr True" using v[of m] by simp
    then show ?thesis using s1 v by blast
  qed
  from k main show ?thesis by blast
qed

text \<open>The theorem at the primes of the demonstration, 61 and 53.\<close>

theorem sign_then_verify_witness:
  "\<forall>(H :: string \<Rightarrow> nat) m m2. \<exists>s. sign H m (2753, 3233) = Inr s
       \<and> verify H m s (65537, 3233) = Inr True
       \<and> verify H m2 s (65537, 3233) = Inr (int (H m2) mod 3233 = int (H m) mod 3233)"
proof (intro allI)
  fix H :: "string \<Rightarrow> nat" and m m2
  have "(61::int) \<noteq> 53" by simp
  from sign_then_verify[OF prime_number_61 prime_number_53 this]
  obtain e d where k: "generate_keypair 61 53 = Some (Inr ((e, 61 * 53), (d, 61 * 53)))"
    and u: "\<forall>(H :: string \<Rightarrow> nat) m. \<exists>s. sign H m (d, 61 * 53) = Inr s
                  \<and> verify H m s (e, 61 * 53) = Inr True
                  \<and> (\<forall>m2. verify H m2 s (e, 61 * 53)
                         = Inr (int (H m2) mod (61 * 53) = int (H m) mod (61 * 53)))"
    by (elim exE conjE) (rule that)
  have ed: "e = 65537" "d = 2753" using k generate_keypair_61_53 by simp_all
  from u obtain s where s: "sign H m (d, 61 * 53) = Inr s" "verify H m s (e, 61 * 53) = Inr True"
    "\<forall>m2. verify H m2 s (e, 61 * 53) = Inr (int (H m2) mod (61 * 53) = int (H m) mod (61 * 53))"
    by blast
  from s(3) have "verify H m2 s (e, 61 * 53) = Inr (int (H m2) mod (61 * 53) = int (H m) mod (61 * 53))"
    by (rule spec)
  then show "\<exists>s. sign H m (2753, 3233) = Inr s
       \<and> verify H m s (65537, 3233) = Inr True
       \<and> verify H m2 s (65537, 3233) = Inr (int (H m2) mod 3233 = int (H m) mod 3233)"
    using s(1,2) unfolding ed by (intro exI[of _ s]) simp
qed

text \<open>
  Claim C3 as stated fails in its second half. The key pair of the primes 2 and 3 has
  \<open>n = 6\<close>, and whatever the digest function is, two of the seven one-byte messages
  with the bytes 0 to 6 have the same digest modulo 6: the signature of the one is
  accepted for the other, which differs from it in a single byte.
\<close>

theorem tamper_detection_counterexample:
  "prime_number 2 \<and> prime_number 3
   \<and> generate_keypair 2 3 = Some (Inr ((65537, 6), (1, 6)))
   \<and> (\<forall>H :: string \<Rightarrow> nat. \<exists>m m2 s. altered_one_byte m m2
          \<and> sign H m (1, 6) = Inr s \<and> verify H m2 s (65537, 6) = Inr True)"
proof -
  have "\<exists>m m2 s. altered_one_byte m m2
          \<and> sign H m (1, 6) = Inr s \<and> verify H m2 s (65537, 6) = Inr True"
    for H :: "string \<Rightarrow> nat"
  proof -
    obtain c c' where c: "c \<noteq> c'" "int (H [c]) mod 6 = int (H [c']) mod 6"
      using digest_collision[of H] by blast
    have a: "altered_one_byte [c] [c']" using c(1) by (simp add: altered_one_byte_def)
    have s: "sign H [c] (1, 6) = Inr (int (H [c]) mod 6)"
      by (simp add: sign_eq modexp_eval)
    have v: "verify H [c'] (int (H [c]) mod 6) (65537, 6) = Inr True"
      using c(2) by (simp add: verify_eq modexp_65537_6)
    from a s v show ?thesis by blast
  qed
  then show ?thesis using prime_number_2 prime_number_3 generate_keypair_2_3 by simp
qed

section \<open>Encryption and decryption of text\<close>

lemma decrypt_modexp:
  "decrypt msg n d =
     map_err (\<lambda>i. case int_py i of
                     Inl err \<Rightarrow> Inl err
                   | Inr v \<Rightarrow> if n = 0 then Inl ZeroDivisionError else chr (modexp v d n))
       (str_split msg)"
  unfolding decrypt_def modexp_def by (rule refl)

lemma encrypt_modexp:
  "encrypt msg n e =
     (case map_err (\<lambda>i. if n = 0 then Inl ZeroDivisionError else Inr (modexp (int i) e n)) msg of
        Inl err \<Rightarrow> Inl err
      | Inr cs \<Rightarrow>
          (case map_err str cs of
             Inl err \<Rightarrow> Inl err
           | Inr ts \<Rightarrow> Inr (str_join '' '' ts)))"
  unfolding encrypt_def modexp_def by (rule refl)

lemmas text_eval = str_split_def is_space_def int_py_def parse_int_body_def
  int_max_str_digits_def is_digit_def chr_def

lemma below_digit_limit: "c < 10 ^ 6 \<Longrightarrow> c < (10::int) ^ int_max_str_digits"
proof -
  have "(10::int) ^ 6 \<le> 10 ^ int_max_str_digits"
    by (rule power_increasing) (simp_all add: int_max_str_digits_def)
  then show "c < 10 ^ 6 \<Longrightarrow> c < (10::int) ^ int_max_str_digits" by linarith
qed

lemma str_0: "str 0 = Inr ''0''"
  by (simp add: str_def not_le decimal_def str_nat.simps[of 0] digit_char_def char_of_def
      bit_iff_odd)

lemma str_nat_long: "10 ^ m \<le> k \<Longrightarrow> m < length (str_nat k)"
proof (induction k arbitrary: m rule: str_nat.induct)
  case (1 k)
  show ?case
  proof (cases "k < 10")
    case True
    have "m = 0"
    proof (cases m)
      case (Suc j)
      have "(10::nat) ^ 1 \<le> 10 ^ m" by (rule power_increasing) (simp_all add: Suc)
      then show ?thesis using True 1(2) by simp
    qed simp
    then show ?thesis using True by (subst str_nat.simps) simp
  next
    case False
    show ?thesis
    proof (cases m)
      case 0
      then show ?thesis using False by (subst str_nat.simps) simp
    next
      case (Suc m')
      then have "10 ^ m' \<le> k div 10" using 1(2) by (simp add: less_eq_div_iff_mult_less_eq mult.commute)
      then have "m' < length (str_nat (k div 10))" using 1(1) False by simp
      then show ?thesis using False Suc by (subst str_nat.simps) simp
    qed
  qed
qed

lemma int_py_too_long:
  assumes "10 ^ int_max_str_digits \<le> c"
  shows "int_py (decimal c) = Inl ValueError"
proof -
  have c0: "0 \<le> c" using assms by (smt (verit) zero_le_power)
  have "int (10 ^ int_max_str_digits) \<le> int (nat c)" using assms c0 by simp
  then have "10 ^ int_max_str_digits \<le> nat c" by (simp only: of_nat_le_iff)
  then have l: "int_max_str_digits < length (str_nat (nat c))" by (rule str_nat_long)
  obtain x xs where s: "str_nat (nat c) = x # xs" using str_nat_digits[of "nat c"]
    by (cases "str_nat (nat c)") auto
  then have "is_digit x" using str_nat_digits[of "nat c"] by simp
  then have x: "x \<noteq> CHR ''-''" "x \<noteq> CHR ''+''" using is_digit_not_sign by auto
  have "parse_int_body (str_nat (nat c)) = None"
    using l by (simp add: parse_int_body_def filter_digits_str_nat)
  then have "parse_int_body (x # xs) = None" using s by simp
  then show ?thesis using c0 x s by (simp add: decimal_def int_py_def)
qed

lemma pow_shift: "pow (s + k * n) e n = pow s e n"
proof -
  have a: "(s + k * n) mod n = s mod n" by simp
  have b: "(s + k * n) ^ j mod n = s ^ j mod n" for j
    using a by (metis power_mod)
  have c: "((s + k * n) * y) mod n = (s * y) mod n" for y
    using a by (metis mod_mult_left_eq)
  show ?thesis unfolding pow_def by (simp only: b c)
qed

lemma prime_127: "prime 127"
  by (simp add: prime_def)

lemma prime_131: "prime 131"
  by (simp add: prime_def)

lemma key_generation_127_127:
  "key_generation 127 127 12701 = Some (Inr ((16129, 12701), (16129, 5)))"
  by (simp add: key_generation_def d_search.simps)

text \<open>
  Claim C9, as the code has it. Neither \<open>decrypt\<close> nor \<open>verify\<close> compares its input
  with \<open>n\<close>, and no OutOfRangeValue exists. A signature \<open>s + k * n\<close> is treated
  exactly as \<open>s\<close>. For a modulus \<open>n > 0\<close>, a ciphertext whose numbers \<open>cs\<close> are
  non-negative and within the digit limit of \<open>int()\<close> is decrypted exactly as the
  one whose numbers are reduced modulo \<open>n\<close>; a number beyond that limit makes
  \<open>int()\<close> raise ValueError, whatever \<open>n\<close> is.
\<close>

theorem out_of_range_accepted:
  "verify H m (s + k * n) (e, n) = verify H m s (e, n)
   \<and> (0 < n \<and> (\<forall>c \<in> set cs. 0 \<le> c \<and> c < 10 ^ int_max_str_digits) \<longrightarrow>
        decrypt (str_join '' '' (map decimal cs)) n d
          = decrypt (str_join '' '' (map decimal (map (\<lambda>c. c mod n) cs))) n d)
   \<and> (10 ^ int_max_str_digits \<le> c \<longrightarrow> decrypt (decimal c) n d = Inl ValueError)"
proof (intro conjI impI)
  show "verify H m (s + k * n) (e, n) = verify H m s (e, n)"
    by (simp add: verify_def pow_shift)
next
  assume a: "0 < n \<and> (\<forall>c \<in> set cs. 0 \<le> c \<and> c < 10 ^ int_max_str_digits)"
  let ?F = "\<lambda>v. if n = 0 then Inl ZeroDivisionError else chr (v ^ d mod n)"
  have b1: "\<forall>c \<in> set cs. \<bar>c\<bar> < 10 ^ int_max_str_digits" using a by auto
  have b2: "\<forall>c \<in> set (map (\<lambda>c. c mod n) cs). \<bar>c\<bar> < 10 ^ int_max_str_digits"
  proof
    fix r assume "r \<in> set (map (\<lambda>c. c mod n) cs)"
    then obtain c where c: "c \<in> set cs" "r = c mod n" by auto
    have "0 \<le> c" "c < 10 ^ int_max_str_digits" using a c(1) by auto
    moreover have "0 \<le> c mod n" "c mod n \<le> c" using a \<open>0 \<le> c\<close> by (simp_all add: zmod_le_nonneg_dividend)
    ultimately show "\<bar>r\<bar> < 10 ^ int_max_str_digits" using c(2) by linarith
  qed
  have "?F (c mod n) = ?F c" for c by (simp add: power_mod)
  then have "map_err (\<lambda>c. ?F (c mod n)) cs = map_err ?F cs" by (simp only:)
  then have "map_err ?F (map (\<lambda>c. c mod n) cs) = map_err ?F cs" by (simp only: map_err_map)
  then show "decrypt (str_join '' '' (map decimal cs)) n d
       = decrypt (str_join '' '' (map decimal (map (\<lambda>c. c mod n) cs))) n d"
    by (simp only: decrypt_join[OF b1] decrypt_join[OF b2])
next
  assume "10 ^ int_max_str_digits \<le> c"
  then have "int_py (decimal c) = Inl ValueError" by (rule int_py_too_long)
  moreover have "str_split (decimal c) = [decimal c]"
    using str_split_join_decimal[of "[c]"] by simp
  ultimately show "decrypt (decimal c) n d = Inl ValueError" by (simp add: decrypt_def)
qed

text \<open>
  The theorem at the key \<open>n = 3233\<close>, \<open>d = 2753\<close>, for the ciphertext \<open>6023\<close> and
  for a number of 4301 digits.
\<close>

theorem out_of_range_accepted_witness:
  "decrypt (str_join '' '' (map decimal [6023])) 3233 2753
     = decrypt (str_join '' '' (map decimal (map (\<lambda>c. c mod 3233) [6023]))) 3233 2753
   \<and> decrypt (decimal (10 ^ int_max_str_digits)) 3233 2753 = Inl ValueError"
proof -
  have "(6023::int) < 10 ^ int_max_str_digits" by (rule below_digit_limit) simp
  then have h: "(0::int) < 3233 \<and> (\<forall>c \<in> set [6023::int]. 0 \<le> c \<and> c < 10 ^ int_max_str_digits)"
    by simp
  have l: "(10::int) ^ int_max_str_digits \<le> 10 ^ int_max_str_digits" by simp
  note t = out_of_range_accepted[of "\<lambda>_::unit. 0" "()" 0 0 3233 0 "[6023]" 2753
      "10 ^ int_max_str_digits"]
  from t[THEN conjunct2, THEN conjunct1] h
  have a: "decrypt (str_join '' '' (map decimal [6023])) 3233 2753
     = decrypt (str_join '' '' (map decimal (map (\<lambda>c. c mod 3233) [6023]))) 3233 2753"
    by (rule mp)
  from t[THEN conjunct2, THEN conjunct2] l
  have b: "decrypt (decimal (10 ^ int_max_str_digits)) 3233 2753 = Inl ValueError"
    by (rule mp)
  from a b show ?thesis by (rule conjI)
qed

text \<open>
  Claim C9 as stated fails: with the key \<open>n = 3233\<close>, \<open>d = 2753\<close> the ciphertext
  \<open>6023\<close>, which is not below \<open>n\<close>, is decrypted to the letter A without any
  failure.
\<close>

theorem out_of_range_accepted_counterexample:
  "(3233::int) \<le> 6023 \<and> decrypt ''6023'' 3233 2753 = Inr [65]"
  by (simp add: decrypt_modexp text_eval modexp_eval)

text \<open>
  The round trip for distinct primes. When the script of 4 RSA.py draws two distinct
  primes \<open>p\<close> and \<open>q\<close> from \<open>prime_list\<close> and any \<open>e\<close> from its list of
  candidates, the search for \<open>d\<close> ends, and every message whose code points are
  below \<open>n = p * q\<close> is encrypted without failure and decrypted to itself.
\<close>

theorem rsa_round_trip:
  assumes "p \<in> set prime_list" "q \<in> set prime_list" "p \<noteq> q"
    and "e \<in> set (e_candidates (p * q) ((p - 1) * (q - 1)))"
    and "\<forall>c \<in> set msg. int c < p * q"
  shows "\<exists>d c. key_generation p q e = Some (Inr ((p * q, e), (p * q, d)))
           \<and> encrypt msg (p * q) e = Inr c \<and> decrypt c (p * q) d = Inr msg"
proof -
  let ?n = "p * q" and ?phi = "(p - 1) * (q - 1)"
  have p: "127 \<le> p" "p \<le> 500" "prime p" and q: "127 \<le> q" "q \<le> 500" "prime q"
    using assms(1,2) by (simp_all add: prime_list_iff)
  have pp: "prime_number p" using p by (simp add: prime_iff[symmetric])
  have pq: "prime_number q" using q by (simp add: prime_iff[symmetric])
  have "1 * 1 \<le> (p - 1) * (q - 1)" using p(1) q(1) by (intro mult_mono) simp_all
  moreover have "?phi \<noteq> 1" 
  proof
    assume "?phi = 1"
    then have "p - 1 = 1 \<or> p - 1 = - 1" by (metis zmult_eq_1_iff)
    then show False using p(1) by auto
  qed
  ultimately have phi: "1 < ?phi" by simp
  have n0: "0 < ?n" using p(1) q(1) by simp
  have "p * q \<le> 500 * 500" using p q by (intro mult_mono) simp_all
  then have nb: "?n \<le> 250000" by simp
  have e: "1 < e" "gcd (int e) ?phi = 1" using assms(4) by (simp_all add: e_candidates_iff)
  from d_search_inverse[OF e(1) phi e(2)]
  obtain d where d: "d_search e ?phi 1 = Some d" "(int e * int d) mod ?phi = 1"
    by (elim exE conjE) (rule that)
  have "?phi \<noteq> 0" using phi by linarith
  then have phi0: "(?phi = 0) = False" by (rule eq_False[THEN iffD2])
  have k: "key_generation p q e = Some (Inr ((?n, e), (?n, d)))"
    unfolding key_generation_def Let_def by (simp only: phi0 d(1) if_False option.case)
  have "int (e * d) mod ?phi = 1" using d(2) by simp
  from rsa_core[OF pp pq assms(3) this]
  have r: "x ^ (e * d) mod ?n = x mod ?n" for x .
  have rt: "(int i ^ e mod ?n) ^ d mod ?n = int i" if "i \<in> set msg" for i
  proof -
    have "(int i ^ e mod ?n) ^ d mod ?n = int i ^ (e * d) mod ?n"
      by (simp only: power_mod power_mult[symmetric])
    also have "\<dots> = int i mod ?n" by (rule r)
    also have "\<dots> = int i" using that assms(5) by (simp del: mult_eq_0_iff)
    finally show ?thesis .
  qed
  have "?n \<noteq> 0" using n0 by linarith
  then have nz: "(?n = 0) = False" by (rule eq_False[THEN iffD2])
  have ch: "(if ?n = 0 then Inl ZeroDivisionError else chr ((int i ^ e mod ?n) ^ d mod ?n)) = Inr i"
    if "i \<in> set msg" for i
  proof -
    have "int i < ?n" using that assms(5) by (rule bspec[rotated])
    then have "int i < 1114112" using nb by linarith
    then have "chr (int i) = Inr i" by (simp add: chr_def)
    then show ?thesis by (simp only: nz if_False rt[OF that])
  qed
  let ?c = "str_join '' '' (map decimal (map (\<lambda>i. int i ^ e mod ?n) msg))"
  have "?n < 10 ^ 6" using nb by simp
  then have nl: "?n < 10 ^ int_max_str_digits" by (rule below_digit_limit)
  then have "\<bar>?n\<bar> \<le> 10 ^ int_max_str_digits" using n0 by linarith
  with \<open>?n \<noteq> 0\<close> have en: "encrypt msg ?n e = Inr ?c" by (rule encrypt_values)
  have vs: "\<forall>c \<in> set (map (\<lambda>i. int i ^ e mod ?n) msg). \<bar>c\<bar> < 10 ^ int_max_str_digits"
  proof
    fix c assume "c \<in> set (map (\<lambda>i. int i ^ e mod ?n) msg)"
    then obtain i where "c = int i ^ e mod ?n" by auto
    then have "0 \<le> c" "c < ?n" using n0 by (simp_all del: mult_eq_0_iff)
    then show "\<bar>c\<bar> < 10 ^ int_max_str_digits" using nl by linarith
  qed
  have "decrypt ?c ?n d
      = map_err (\<lambda>i. if ?n = 0 then Inl ZeroDivisionError else chr ((int i ^ e mod ?n) ^ d mod ?n)) msg"
    by (simp only: decrypt_join[OF vs] map_err_map)
  also have "\<dots> = Inr (map (\<lambda>i. i) msg)" by (rule map_err_Inr) (rule ch)
  finally have de: "decrypt ?c ?n d = Inr msg" by simp
  from k en de show ?thesis by blast
qed

text \<open>The theorem at \<open>p = 127\<close>, \<open>q = 131\<close>, \<open>e = 11\<close> and the message AZ09.\<close>

theorem rsa_round_trip_witness:
  "\<exists>d c. key_generation 127 131 11 = Some (Inr ((127 * 131, 11), (127 * 131, d)))
       \<and> encrypt [65, 90, 48, 57] (127 * 131) 11 = Inr c
       \<and> decrypt c (127 * 131) d = Inr [65, 90, 48, 57]"
proof -
  have p: "127 \<in> set prime_list" "131 \<in> set prime_list"
    by (simp_all add: prime_list_iff prime_127 prime_131)
  have "gcd (int 11) ((127 - 1) * (131 - 1)) = 1" by (simp add: gcd_py_eval gcd_py.simps)
  then have e: "11 \<in> set (e_candidates (127 * 131) ((127 - 1) * (131 - 1)))"
    by (simp add: e_candidates_iff)
  have m: "\<forall>c \<in> set [65, 90, 48, 57]. int c < 127 * 131" by simp
  have "(127::int) \<noteq> 131" by simp
  from rsa_round_trip[OF p this e m] show ?thesis .
qed

text \<open>
  Claim C1, at the input where the code departs from it. The claim states the round
  trip for every key pair the script produces. Both draws from \<open>prime_list\<close> can
  return 127; with \<open>e = 12701\<close> the script then computes \<open>d = 5\<close>, and the
  one-character message with code point 127, which is below \<open>n = 16129\<close>, is
  encrypted to \<open>0\<close> and decrypted to the character with code point 0.
\<close>

theorem round_trip_fails_for_equal_primes:
  "127 \<in> set prime_list
   \<and> 12701 \<in> set (e_candidates (127 * 127) ((127 - 1) * (127 - 1)))
   \<and> key_generation 127 127 12701 = Some (Inr ((16129, 12701), (16129, 5)))
   \<and> int 127 < 16129
   \<and> encrypt [127] 16129 12701 = Inr ''0''
   \<and> decrypt ''0'' 16129 5 = Inr [0]"
proof -
  have "127 \<in> set prime_list" by (simp add: prime_list_iff prime_127)
  moreover have "gcd (int 12701) ((127 - 1) * (127 - 1)) = 1"
    by (simp add: gcd_py_eval gcd_py.simps)
  then have "12701 \<in> set (e_candidates (127 * 127) ((127 - 1) * (127 - 1)))"
    by (simp add: e_candidates_iff)
  moreover have "encrypt [127] 16129 12701 = Inr ''0''"
    by (simp only: encrypt_modexp map_err.simps) (simp add: modexp_eval str_0)
  moreover have "decrypt ''0'' 16129 5 = Inr [0]"
    by (simp add: decrypt_modexp modexp_eval text_eval)
  ultimately show ?thesis using key_generation_127_127 by simp
qed

text \<open>
  Claim C8, at the input where the code departs from it. The claim wants key generation
  to reject \<open>p = q\<close>. Neither generator compares the primes: the script of 4 RSA.py
  with both draws equal to 127 (and \<open>e = 12701\<close>) produces the key pair
  \<open>(16129, 12701), (16129, 5)\<close>, and \<open>generate_keypair(61, 61)\<close> returns
  \<open>(65537, 3721), (3473, 3721)\<close>.
\<close>

theorem equal_primes_accepted:
  "127 \<in> set prime_list
   \<and> key_generation 127 127 12701 = Some (Inr ((16129, 12701), (16129, 5)))
   \<and> prime 61
   \<and> generate_keypair 61 61 = Some (Inr ((65537, 3721), (3473, 3721)))"
proof -
  have "127 \<in> set prime_list" by (simp add: prime_list_iff prime_127)
  moreover have "generate_keypair 61 61 = Some (Inr ((65537, 3721), (3473, 3721)))"
    by (simp add: generate_keypair_def gcd_py.simps modinv_def modinv_loop.simps)
  moreover have "prime 61" by (simp add: prime_def)
  ultimately show ?thesis using key_generation_127_127 by simp
qed

end
